theory Spec2Isabelle
  imports
    Main
    "HOL-Library.Word"
    "HOL-Library.Multiset"
    "HOL-Library.RBT_Impl"
    "HOL-Library.Product_Lexorder"
begin

unbundle bit_operations_syntax

section \<open>Access classes and access flags\<close>

text \<open>
  Modelled from the spec: the enumeration \<^verbatim>\<open>DxvkAccess\<close> and the flag set
  \<^verbatim>\<open>DxvkAccessFlags\<close> are declared in headers that are not part of
  \<^verbatim>\<open>dxvk_barrier.h\<close>. The spec (3.2) gives an enumeration with \<^verbatim>\<open>Read\<close> and
  \<^verbatim>\<open>Write\<close> and a bitset form with union, test and equality; the bitset is a
  set of access classes here: \<^verbatim>\<open>a | b\<close> and \<^verbatim>\<open>a.set(b)\<close> are \<open>a \<union> b\<close>,
  \<^verbatim>\<open>a.test(x)\<close> is \<open>x \<in> a\<close>, and \<^verbatim>\<open>DxvkAccessFlags()\<close> is \<open>{}\<close>.
\<close>

datatype DxvkAccess = Read | Write

type_synonym DxvkAccessFlags = "DxvkAccess set"

section \<open>Address ranges (struct DxvkAddressRange)\<close>

record DxvkAddressRange =
  resource :: "64 word"
  rangeStart :: "32 word"
  rangeEnd :: "32 word"

definition range_contains :: "DxvkAddressRange \<Rightarrow> DxvkAddressRange \<Rightarrow> bool" where
  "range_contains a other \<longleftrightarrow>
     resource a = resource other
   \<and> rangeStart a \<le> rangeStart other
   \<and> rangeEnd a \<ge> rangeEnd other"



section \<open>The packed tree node (struct DxvkBarrierTreeNode)\<close>

record DxvkBarrierTreeNode =
  header :: "64 word"
  addressRange :: DxvkAddressRange

definition NodeIndexMask :: "64 word" where
  "NodeIndexMask = push_bit 21 1 - 1"

text \<open>The shift \<^verbatim>\<open>(index ? 22 : 1)\<close> that selects the child field.\<close>

definition childShift :: "32 word \<Rightarrow> nat" where
  "childShift index = (if index \<noteq> 0 then 22 else 1)"

definition setRed :: "bool \<Rightarrow> DxvkBarrierTreeNode \<Rightarrow> DxvkBarrierTreeNode" where
  "setRed red n =
     n\<lparr>header := (header n AND NOT 1) OR (if red then 1 else 0)\<rparr>"

definition isRed :: "DxvkBarrierTreeNode \<Rightarrow> bool" where
  "isRed n \<longleftrightarrow> header n AND 1 \<noteq> 0"

definition setParent :: "32 word \<Rightarrow> DxvkBarrierTreeNode \<Rightarrow> DxvkBarrierTreeNode" where
  "setParent node n =
     n\<lparr>header := (header n AND NOT (push_bit 43 NodeIndexMask))
                    OR push_bit 43 (ucast node)\<rparr>"

definition setChild :: "32 word \<Rightarrow> 32 word \<Rightarrow> DxvkBarrierTreeNode \<Rightarrow> DxvkBarrierTreeNode" where
  "setChild index node n =
     n\<lparr>header := (header n AND NOT (push_bit (childShift index) NodeIndexMask))
                    OR push_bit (childShift index) (ucast node)\<rparr>"

definition parent :: "DxvkBarrierTreeNode \<Rightarrow> 32 word" where
  "parent n = ucast (drop_bit 43 (header n) AND NodeIndexMask)"

definition child :: "32 word \<Rightarrow> DxvkBarrierTreeNode \<Rightarrow> 32 word" where
  "child index n = ucast (drop_bit (childShift index) (header n) AND NodeIndexMask)"

definition isRoot :: "DxvkBarrierTreeNode \<Rightarrow> bool" where
  "isRoot n \<longleftrightarrow> parent n = 0"

section \<open>Bucket routing (DxvkBarrierTracker::computeRootIndex)\<close>

definition HashTableSize :: "32 word" where
  "HashTableSize = 32"

text \<open>
  \<^verbatim>\<open>size_t\<close> is taken as 64 bits wide (the 64-bit targets of the library), so
  \<^verbatim>\<open>size_t(range.resource)\<close> keeps the whole handle. The sum is formed in
  \<^verbatim>\<open>size_t\<close> and narrowed to \<^verbatim>\<open>uint32_t\<close> by the return.
\<close>

definition computeRootIndex :: "DxvkAddressRange \<Rightarrow> DxvkAccess \<Rightarrow> 32 word" where
  "computeRootIndex rng access =
     (let hash0 = resource rng * (93887 :: 64 word);
          hash = hash0 XOR drop_bit 16 hash0
      in ucast (1 + (hash mod ucast HashTableSize)
                  + (if access = Write then ucast HashTableSize else (0 :: 64 word))))"

text \<open>
  The bucket formula in the words of the spec (3.4), on natural numbers with the
  64-bit wrap-around of the product written out.
\<close>

definition spec_bucket :: "nat \<Rightarrow> DxvkAccess \<Rightarrow> nat" where
  "spec_bucket res access =
     (let h0 = (res * 93887) mod 2 ^ 64;
          h = h0 XOR (h0 div 2 ^ 16)
      in 1 + (h mod 32) + (if access = Write then 32 else 0))"

section \<open>The range tracker (class DxvkBarrierTracker)\<close>

text \<open>
  Modelled from the spec: \<^verbatim>\<open>dxvk_barrier.h\<close> declares \<^verbatim>\<open>findRange\<close>, \<^verbatim>\<open>insertRange\<close>,
  \<^verbatim>\<open>findNode\<close>, \<^verbatim>\<open>insertNode\<close>, \<^verbatim>\<open>removeNode\<close>, \<^verbatim>\<open>allocateNode\<close> and the rebalancing
  helpers of the tracker, and their bodies are in a file that is not part of the
  sources at hand. What follows is the tracker as sections 3.3, 3.4, 4.1 and 4.2 of
  the spec describe it. A bucket's tree is a red-black tree keyed on
  \<open>(resource, rangeStart)\<close>, the key of the spec's ordering \<^verbatim>\<open>lt\<close>, that stores
  \<open>rangeEnd\<close> with the key; the pool of packed nodes is represented by these tree
  values, and the live nodes of the pool are the nodes of the 64 trees.
\<close>

type_synonym range_tree = "(64 word \<times> 32 word, 32 word) rbt"

definition node_key :: "DxvkAddressRange \<Rightarrow> 64 word \<times> 32 word" where
  "node_key r = (resource r, rangeStart r)"

definition node_range :: "64 word \<times> 32 word \<Rightarrow> 32 word \<Rightarrow> DxvkAddressRange" where
  "node_range k e = \<lparr>resource = fst k, rangeStart = snd k, rangeEnd = e\<rparr>"








record DxvkBarrierTracker =
  m_rootMaskValid :: "64 word"
  m_rootMaskSubtree :: "64 word"
  m_trees :: "range_tree list"





text \<open>
  Modelled from the spec: \<^verbatim>\<open>findRange\<close> (4.1), whose code is not in the sources. The
  write bucket is searched always and the read bucket when the access is a write;
  when the bits of all these buckets are clear in \<^verbatim>\<open>rootMaskValid\<close> the answer is
  false without a walk.
\<close>

definition bucketValid :: "DxvkBarrierTracker \<Rightarrow> nat \<Rightarrow> bool" where
  "bucketValid s i \<longleftrightarrow> bit (m_rootMaskValid s) (i - 1)"




section \<open>Buffer slices (class DxvkBarrierBufferSlice)\<close>

record DxvkBarrierBufferSlice =
  buf_loAddr :: "64 word"
  buf_hiAddr :: "64 word"
  buf_access :: DxvkAccessFlags

text \<open>The default constructor and the constructor from offset, length and access.\<close>

definition buffer_default :: DxvkBarrierBufferSlice where
  "buffer_default = \<lparr>buf_loAddr = 0, buf_hiAddr = 0, buf_access = {}\<rparr>"

definition buffer_slice :: "64 word \<Rightarrow> 64 word \<Rightarrow> DxvkAccessFlags \<Rightarrow> DxvkBarrierBufferSlice" where
  "buffer_slice offset len access =
     \<lparr>buf_loAddr = offset, buf_hiAddr = offset + len, buf_access = access\<rparr>"

definition buffer_overlaps :: "DxvkBarrierBufferSlice \<Rightarrow> DxvkBarrierBufferSlice \<Rightarrow> bool" where
  "buffer_overlaps m other \<longleftrightarrow>
     buf_hiAddr m > buf_loAddr other \<and> buf_loAddr m < buf_hiAddr other"

definition buffer_isDirty :: "DxvkBarrierBufferSlice \<Rightarrow> DxvkBarrierBufferSlice \<Rightarrow> bool" where
  "buffer_isDirty m other \<longleftrightarrow>
     Write \<in> (buf_access other \<union> buf_access m) \<and> buffer_overlaps m other"

definition buffer_canMerge :: "DxvkBarrierBufferSlice \<Rightarrow> DxvkBarrierBufferSlice \<Rightarrow> bool" where
  "buffer_canMerge m other =
     (if buf_access m = buf_access other
      then buf_hiAddr m \<ge> buf_loAddr other \<and> buf_loAddr m \<le> buf_hiAddr other
      else buf_loAddr m = buf_loAddr other \<and> buf_hiAddr m = buf_hiAddr other)"

definition buffer_merge :: "DxvkBarrierBufferSlice \<Rightarrow> DxvkBarrierBufferSlice \<Rightarrow> DxvkBarrierBufferSlice" where
  "buffer_merge m other =
     \<lparr>buf_loAddr = min (buf_loAddr m) (buf_loAddr other),
      buf_hiAddr = max (buf_hiAddr m) (buf_hiAddr other),
      buf_access = buf_access m \<union> buf_access other\<rparr>"

definition buffer_getAccess :: "DxvkBarrierBufferSlice \<Rightarrow> DxvkAccessFlags" where
  "buffer_getAccess m = buf_access m"

section \<open>Image slices (class DxvkBarrierImageSlice)\<close>

record DxvkBarrierImageSlice =
  img_aspects :: "32 word"
  img_minLayer :: "32 word"
  img_maxLayer :: "32 word"
  img_minLevel :: "32 word"
  img_maxLevel :: "32 word"
  img_access :: DxvkAccessFlags

text \<open>The subresource range handed to the constructor (VkImageSubresourceRange).\<close>

record VkImageSubresourceRange =
  aspectMask :: "32 word"
  baseMipLevel :: "32 word"
  levelCount :: "32 word"
  baseArrayLayer :: "32 word"
  layerCount :: "32 word"

definition image_default :: DxvkBarrierImageSlice where
  "image_default =
     \<lparr>img_aspects = 0, img_minLayer = 0, img_maxLayer = 0,
      img_minLevel = 0, img_maxLevel = 0, img_access = {}\<rparr>"

definition image_slice :: "VkImageSubresourceRange \<Rightarrow> DxvkAccessFlags \<Rightarrow> DxvkBarrierImageSlice" where
  "image_slice r access =
     \<lparr>img_aspects = aspectMask r,
      img_minLayer = baseArrayLayer r,
      img_maxLayer = baseArrayLayer r + layerCount r,
      img_minLevel = baseMipLevel r,
      img_maxLevel = baseMipLevel r + levelCount r,
      img_access = access\<rparr>"

definition image_overlaps :: "DxvkBarrierImageSlice \<Rightarrow> DxvkBarrierImageSlice \<Rightarrow> bool" where
  "image_overlaps m other \<longleftrightarrow>
     (img_aspects m AND img_aspects other) \<noteq> 0
   \<and> img_minLayer m < img_maxLayer other
   \<and> img_maxLayer m > img_minLayer other
   \<and> img_minLevel m < img_maxLevel other
   \<and> img_maxLevel m > img_minLevel other"

definition image_isDirty :: "DxvkBarrierImageSlice \<Rightarrow> DxvkBarrierImageSlice \<Rightarrow> bool" where
  "image_isDirty m other \<longleftrightarrow>
     Write \<in> (img_access other \<union> img_access m) \<and> image_overlaps m other"

definition sameLayers :: "DxvkBarrierImageSlice \<Rightarrow> DxvkBarrierImageSlice \<Rightarrow> bool" where
  "sameLayers m other \<longleftrightarrow>
     img_minLayer m = img_minLayer other \<and> img_maxLayer m = img_maxLayer other"

definition sameLevels :: "DxvkBarrierImageSlice \<Rightarrow> DxvkBarrierImageSlice \<Rightarrow> bool" where
  "sameLevels m other \<longleftrightarrow>
     img_minLevel m = img_minLevel other \<and> img_maxLevel m = img_maxLevel other"

definition image_canMerge :: "DxvkBarrierImageSlice \<Rightarrow> DxvkBarrierImageSlice \<Rightarrow> bool" where
  "image_canMerge m other =
     (if sameLayers m other = sameLevels m other then sameLayers m other
      else if img_access m \<noteq> img_access other then False
      else if sameLayers m other
        then img_maxLevel m \<ge> img_minLevel other \<and> img_minLevel m \<le> img_maxLevel other
        else img_maxLayer m \<ge> img_minLayer other \<and> img_minLayer m \<le> img_maxLayer other)"

definition image_merge :: "DxvkBarrierImageSlice \<Rightarrow> DxvkBarrierImageSlice \<Rightarrow> DxvkBarrierImageSlice" where
  "image_merge m other =
     \<lparr>img_aspects = img_aspects m OR img_aspects other,
      img_minLayer = min (img_minLayer m) (img_minLayer other),
      img_maxLayer = max (img_maxLayer m) (img_maxLayer other),
      img_minLevel = min (img_minLevel m) (img_minLevel other),
      img_maxLevel = max (img_maxLevel m) (img_maxLevel other),
      img_access = img_access m \<union> img_access other\<rparr>"

definition image_getAccess :: "DxvkBarrierImageSlice \<Rightarrow> DxvkAccessFlags" where
  "image_getAccess m = img_access m"

section \<open>The subresource set (class DxvkBarrierSubresourceSet)\<close>

text \<open>
  The class is a template over the handle type \<^verbatim>\<open>K\<close> and the slice type \<^verbatim>\<open>T\<close>.
  Both instances of the header use a 64-bit Vulkan handle as key, so keys are
  \<open>64 word\<close>. What the template needs of \<^verbatim>\<open>T\<close> is passed as a record of
  operations; \<open>op_isImage\<close> is the compile-time test
  \<^verbatim>\<open>std::is_same_v<T, DxvkBarrierImageSlice>\<close> and \<open>op_default\<close> the default
  constructor, which fills the slots that \<^verbatim>\<open>resize\<close> adds.
\<close>

record 'T slice_ops =
  op_overlaps :: "'T \<Rightarrow> 'T \<Rightarrow> bool"
  op_isDirty :: "'T \<Rightarrow> 'T \<Rightarrow> bool"
  op_canMerge :: "'T \<Rightarrow> 'T \<Rightarrow> bool"
  op_merge :: "'T \<Rightarrow> 'T \<Rightarrow> 'T"
  op_getAccess :: "'T \<Rightarrow> DxvkAccessFlags"
  op_default :: 'T
  op_isImage :: bool

definition buffer_ops :: "DxvkBarrierBufferSlice slice_ops" where
  "buffer_ops = \<lparr>op_overlaps = buffer_overlaps, op_isDirty = buffer_isDirty,
     op_canMerge = buffer_canMerge, op_merge = buffer_merge,
     op_getAccess = buffer_getAccess, op_default = buffer_default, op_isImage = False\<rparr>"

definition image_ops :: "DxvkBarrierImageSlice slice_ops" where
  "image_ops = \<lparr>op_overlaps = image_overlaps, op_isDirty = image_isDirty,
     op_canMerge = image_canMerge, op_merge = image_merge,
     op_getAccess = image_getAccess, op_default = image_default, op_isImage = True\<rparr>"

record 'T ListEntry =
  le_data :: 'T
  le_next :: "32 word"

record 'T HashEntry =
  he_version :: "64 word"
  he_key :: "64 word"
  he_data :: 'T
  he_next :: "32 word"

record 'T DxvkBarrierSubresourceSet =
  m_version :: "64 word"
  m_used :: "64 word"
  m_indexMask :: "64 word"
  m_list :: "'T ListEntry list"
  m_hashMap :: "'T HashEntry list"

definition NoEntry :: "32 word" where
  "NoEntry = NOT 0"

text \<open>The member initialisers: version 1, nothing used, no table.\<close>

definition init_set :: "'T DxvkBarrierSubresourceSet" where
  "init_set = \<lparr>m_version = 1, m_used = 0, m_indexMask = 0, m_list = [], m_hashMap = []\<rparr>"

definition computeHash :: "64 word \<Rightarrow> 64 word" where
  "computeHash key = (let hash = key * 93887 in hash XOR drop_bit 16 hash)"

definition computeSize :: "'T DxvkBarrierSubresourceSet \<Rightarrow> 64 word" where
  "computeSize s = (if m_indexMask s \<noteq> 0 then m_indexMask s + 1 else 0)"

definition computeIndex :: "'T DxvkBarrierSubresourceSet \<Rightarrow> 64 word \<Rightarrow> 64 word" where
  "computeIndex s key = computeHash key AND m_indexMask s"

definition advanceIndex :: "64 word \<Rightarrow> 64 word \<Rightarrow> 64 word" where
  "advanceIndex indexMask index = (index + 1) AND indexMask"

text \<open>
  The probing loop that \<^verbatim>\<open>findHashEntry\<close> and \<^verbatim>\<open>insertHashEntry\<close> share:
  \<^verbatim>\<open>while (m_hashMap[index].version == m_version)\<close>, leaving with the entry when
  the key matches. The result is \<open>(True, i)\<close> when slot \<open>i\<close> holds the key and
  \<open>(False, i)\<close> when the loop ends at the slot \<open>i\<close> that is not live. A pointer to a
  hash entry is its index. \<open>None\<close> stands for a run that has no result: a loop that
  never ends, or a read outside the vector.
\<close>

partial_function (option) probe ::
  "'T HashEntry list \<Rightarrow> 64 word \<Rightarrow> 64 word \<Rightarrow> 64 word \<Rightarrow> 64 word \<Rightarrow> (bool \<times> nat) option" where
  "probe hm version indexMask key index =
     (if unat index < length hm then
        (if he_version (hm ! unat index) = version then
           (if he_key (hm ! unat index) = key then Some (True, unat index)
            else probe hm version indexMask key (advanceIndex indexMask index))
         else Some (False, unat index))
      else None)"

text \<open>\<^verbatim>\<open>findHashEntry\<close>: \<open>Some None\<close> is the null pointer.\<close>

definition findHashEntry :: "'T DxvkBarrierSubresourceSet \<Rightarrow> 64 word \<Rightarrow> nat option option" where
  "findHashEntry s key =
     (if m_used s = 0 then Some None
      else case probe (m_hashMap s) (m_version s) (m_indexMask s) key (computeIndex s key) of
             None \<Rightarrow> None
           | Some (found, i) \<Rightarrow> Some (if found then Some i else None))"

text \<open>
  The list walk of \<^verbatim>\<open>getAccess\<close>:
  \<^verbatim>\<open>while (list && access != entry->data.getAccess())\<close>. A list pointer is the
  32-bit index; \<^verbatim>\<open>getListEntry\<close> gives null exactly when the index is not below
  \<^verbatim>\<open>NoEntry\<close>.
\<close>

partial_function (option) getAccess_loop ::
  "'T slice_ops \<Rightarrow> 'T ListEntry list \<Rightarrow> DxvkAccessFlags \<Rightarrow> 'T \<Rightarrow> 32 word \<Rightarrow> DxvkAccessFlags
     \<Rightarrow> DxvkAccessFlags option" where
  "getAccess_loop ops l entryAccess other idx access =
     (if idx < NoEntry \<and> access \<noteq> entryAccess then
        (if unat idx < length l then
           getAccess_loop ops l entryAccess other (le_next (l ! unat idx))
             (if op_overlaps ops (le_data (l ! unat idx)) other
              then access \<union> op_getAccess ops (le_data (l ! unat idx)) else access)
         else None)
      else Some access)"

definition getAccess ::
  "'T slice_ops \<Rightarrow> 'T DxvkBarrierSubresourceSet \<Rightarrow> 64 word \<Rightarrow> 'T \<Rightarrow> DxvkAccessFlags option" where
  "getAccess ops s res other =
     (case findHashEntry s res of
        None \<Rightarrow> None
      | Some None \<Rightarrow> Some {}
      | Some (Some i) \<Rightarrow>
          (if \<not> op_overlaps ops (he_data (m_hashMap s ! i)) other then Some {}
           else if \<not> he_next (m_hashMap s ! i) < NoEntry
             then Some (op_getAccess ops (he_data (m_hashMap s ! i)))
           else getAccess_loop ops (m_list s) (op_getAccess ops (he_data (m_hashMap s ! i)))
                  other (he_next (m_hashMap s ! i)) {}))"

text \<open>The list walk of \<^verbatim>\<open>isDirty\<close>: \<^verbatim>\<open>while (list && !dirty)\<close>.\<close>

partial_function (option) isDirty_loop ::
  "'T slice_ops \<Rightarrow> 'T ListEntry list \<Rightarrow> 'T \<Rightarrow> 32 word \<Rightarrow> bool \<Rightarrow> bool option" where
  "isDirty_loop ops l other idx dirty =
     (if idx < NoEntry \<and> \<not> dirty then
        (if unat idx < length l then
           isDirty_loop ops l other (le_next (l ! unat idx))
             (op_isDirty ops (le_data (l ! unat idx)) other)
         else None)
      else Some dirty)"

definition isDirty ::
  "'T slice_ops \<Rightarrow> 'T DxvkBarrierSubresourceSet \<Rightarrow> 64 word \<Rightarrow> 'T \<Rightarrow> bool option" where
  "isDirty ops s res other =
     (case findHashEntry s res of
        None \<Rightarrow> None
      | Some None \<Rightarrow> Some False
      | Some (Some i) \<Rightarrow>
          (if \<not> op_isDirty ops (he_data (m_hashMap s ! i)) other then Some False
           else if \<not> he_next (m_hashMap s ! i) < NoEntry then Some True
           else isDirty_loop ops (m_list s) other (he_next (m_hashMap s ! i)) False))"

text \<open>
  \<^verbatim>\<open>growHashMap\<close>. The innermost loop
  \<^verbatim>\<open>while (m_hashMap[index].version > m_version) index = advanceIndex(index)\<close>
  is \<open>findSlot\<close>; the loop \<^verbatim>\<open>while (entry.version == m_version)\<close> around it, which
  swaps the carried entry with the slot found, is \<open>relocate\<close>; the \<^verbatim>\<open>for\<close> loop
  over the old slots is \<open>relocateAll\<close>. As in the source, \<^verbatim>\<open>computeIndex\<close> and
  \<^verbatim>\<open>advanceIndex\<close> read \<^verbatim>\<open>m_indexMask\<close>, which is assigned only after the loops.
\<close>

partial_function (option) findSlot ::
  "'T HashEntry list \<Rightarrow> 64 word \<Rightarrow> 64 word \<Rightarrow> 64 word \<Rightarrow> nat option" where
  "findSlot hm version indexMask index =
     (if unat index < length hm then
        (if he_version (hm ! unat index) > version
         then findSlot hm version indexMask (advanceIndex indexMask index)
         else Some (unat index))
      else None)"

partial_function (option) relocate ::
  "64 word \<Rightarrow> 64 word \<Rightarrow> 'T HashEntry list \<Rightarrow> 'T HashEntry \<Rightarrow> 'T HashEntry list option" where
  "relocate version indexMask hm entry =
     (if he_version entry = version then
        Option.bind (findSlot hm version indexMask (computeHash (he_key entry) AND indexMask))
          (\<lambda>index. relocate version indexMask
                      (hm[index := entry\<lparr>he_version := version + 1\<rparr>]) (hm ! index))
      else Some hm)"

fun relocateAll ::
  "64 word \<Rightarrow> 64 word \<Rightarrow> nat list \<Rightarrow> 'T HashEntry list \<Rightarrow> 'T HashEntry list option" where
  "relocateAll version indexMask [] hm = Some hm"
| "relocateAll version indexMask (i # rest) hm =
     (if i < length hm then
        Option.bind (relocate version indexMask (hm[i := (hm ! i)\<lparr>he_version := 0\<rparr>]) (hm ! i))
          (relocateAll version indexMask rest)
      else None)"

text \<open>The value-initialised entry that \<^verbatim>\<open>m_hashMap.resize\<close> appends.\<close>

definition defaultEntry :: "'T slice_ops \<Rightarrow> 'T HashEntry" where
  "defaultEntry ops = \<lparr>he_version = 0, he_key = 0, he_data = op_default ops, he_next = 0\<rparr>"

definition resize :: "nat \<Rightarrow> 'a \<Rightarrow> 'a list \<Rightarrow> 'a list" where
  "resize n d xs = take n xs @ replicate (n - length xs) d"

definition growHashMap ::
  "'T slice_ops \<Rightarrow> 64 word \<Rightarrow> 'T DxvkBarrierSubresourceSet \<Rightarrow> 'T DxvkBarrierSubresourceSet option" where
  "growHashMap ops newSize s =
     Option.bind
       (relocateAll (m_version s) (m_indexMask s) [0 ..< unat (computeSize s)]
          (resize (unat newSize) (defaultEntry ops) (m_hashMap s)))
       (\<lambda>hm. Some (s\<lparr>m_hashMap := hm, m_version := m_version s + 1, m_indexMask := newSize - 1\<rparr>))"

definition growHashMapBeforeInsert ::
  "'T slice_ops \<Rightarrow> 'T DxvkBarrierSubresourceSet \<Rightarrow> 'T DxvkBarrierSubresourceSet option" where
  "growHashMapBeforeInsert ops s =
     (if 10 * m_used s \<ge> 7 * computeSize s
      then growHashMap ops (if computeSize s \<noteq> 0 then computeSize s * 2 else 64) s
      else Some s)"

text \<open>
  \<^verbatim>\<open>insertHashEntry\<close> returns the state and the pointer: \<open>Some i\<close> for the entry
  that was already there, \<open>None\<close> (null) after a new entry has been written.
\<close>

definition insertHashEntry ::
  "'T slice_ops \<Rightarrow> 64 word \<Rightarrow> 'T \<Rightarrow> 'T DxvkBarrierSubresourceSet
     \<Rightarrow> ('T DxvkBarrierSubresourceSet \<times> nat option) option" where
  "insertHashEntry ops key d s0 =
     Option.bind (growHashMapBeforeInsert ops s0) (\<lambda>s.
       Option.bind (probe (m_hashMap s) (m_version s) (m_indexMask s) key (computeIndex s key))
         (\<lambda>(found, i).
            if found then Some (s, Some i)
            else Some (s\<lparr>m_hashMap := (m_hashMap s)
                           [i := \<lparr>he_version = m_version s, he_key = key, he_data = d, he_next = NoEntry\<rparr>],
                         m_used := m_used s + 1\<rparr>, None)))"

text \<open>\<^verbatim>\<open>insertListEntry(subresource, head)\<close>, the head given by its slot \<open>h\<close>.\<close>

definition insertListEntry ::
  "'T \<Rightarrow> nat \<Rightarrow> 'T DxvkBarrierSubresourceSet \<Rightarrow> 'T DxvkBarrierSubresourceSet" where
  "insertListEntry subresource h s =
     s\<lparr>m_list := m_list s @ [\<lparr>le_data = subresource, le_next = he_next (m_hashMap s ! h)\<rparr>],
       m_hashMap := (m_hashMap s)[h := (m_hashMap s ! h)\<lparr>he_next := of_nat (length (m_list s))\<rparr>]\<rparr>"

text \<open>
  The \<^verbatim>\<open>do ... while\<close> loop of \<^verbatim>\<open>insert\<close> for image slices; it is entered with a
  non-null list entry. The flag tells whether the loop left through \<^verbatim>\<open>break\<close>.
\<close>

partial_function (option) mergeListEntry ::
  "'T slice_ops \<Rightarrow> 'T \<Rightarrow> 'T ListEntry list \<Rightarrow> 32 word \<Rightarrow> ('T ListEntry list \<times> bool) option" where
  "mergeListEntry ops other l idx =
     (if unat idx < length l then
        (if op_canMerge ops (le_data (l ! unat idx)) other
         then Some (l[unat idx := (l ! unat idx)\<lparr>le_data := op_merge ops (le_data (l ! unat idx)) other\<rparr>], True)
         else if le_next (l ! unat idx) < NoEntry
           then mergeListEntry ops other l (le_next (l ! unat idx))
           else Some (l, False))
      else None)"

definition insert_slice ::
  "'T slice_ops \<Rightarrow> 64 word \<Rightarrow> 'T \<Rightarrow> 'T DxvkBarrierSubresourceSet \<Rightarrow> 'T DxvkBarrierSubresourceSet option" where
  "insert_slice ops res other s0 =
     Option.bind (insertHashEntry ops res other s0) (\<lambda>(s, hashEntry).
       case hashEntry of
         None \<Rightarrow> Some s
       | Some h \<Rightarrow>
           Option.bind
             (if he_next (m_hashMap s ! h) < NoEntry then
                (if op_isImage ops then
                   Option.bind (mergeListEntry ops other (m_list s) (he_next (m_hashMap s ! h)))
                     (\<lambda>(l, merged).
                        if merged then Some (s\<lparr>m_list := l\<rparr>)
                        else Some (insertListEntry other h s))
                 else Some (insertListEntry other h s))
              else if \<not> op_canMerge ops (he_data (m_hashMap s ! h)) other then
                Some (insertListEntry other h (insertListEntry (he_data (m_hashMap s ! h)) h s))
              else Some s)
             (\<lambda>s'. Some (s'\<lparr>m_hashMap := (m_hashMap s')
                              [h := (m_hashMap s' ! h)\<lparr>he_data := op_merge ops (he_data (m_hashMap s' ! h)) other\<rparr>]\<rparr>)))"

definition clear :: "'T DxvkBarrierSubresourceSet \<Rightarrow> 'T DxvkBarrierSubresourceSet" where
  "clear s = s\<lparr>m_used := 0, m_version := m_version s + 1, m_list := []\<rparr>"

definition is_empty :: "'T DxvkBarrierSubresourceSet \<Rightarrow> bool" where
  "is_empty s \<longleftrightarrow> m_used s = 0"

text \<open>A sequence of \<^verbatim>\<open>insert\<close> calls, first to last.\<close>

fun insert_all ::
  "'T slice_ops \<Rightarrow> (64 word \<times> 'T) list \<Rightarrow> 'T DxvkBarrierSubresourceSet \<Rightarrow> 'T DxvkBarrierSubresourceSet option" where
  "insert_all ops [] s = Some s"
| "insert_all ops ((k, d) # rest) s = Option.bind (insert_slice ops k d s) (insert_all ops rest)"

declare probe.simps [code] getAccess_loop.simps [code] isDirty_loop.simps [code]
  findSlot.simps [code] relocate.simps [code] mergeListEntry.simps [code]

section \<open>Sequences of calls on a subresource set\<close>

text \<open>
  The public interface of the class: \<^verbatim>\<open>insert\<close>, \<^verbatim>\<open>getAccess\<close>, \<^verbatim>\<open>isDirty\<close> and
  \<^verbatim>\<open>clear\<close>. The two queries leave the members as they are; a query that does not
  return leaves no state behind.
\<close>

datatype 'T set_call =
    Insert "64 word" 'T
  | GetAccess "64 word" 'T
  | IsDirty "64 word" 'T
  | Clear

fun call :: "'T slice_ops \<Rightarrow> 'T set_call \<Rightarrow> 'T DxvkBarrierSubresourceSet \<Rightarrow> 'T DxvkBarrierSubresourceSet option" where
  "call ops (Insert k d) s = insert_slice ops k d s"
| "call ops (GetAccess k d) s = map_option (\<lambda>_. s) (getAccess ops s k d)"
| "call ops (IsDirty k d) s = map_option (\<lambda>_. s) (isDirty ops s k d)"
| "call ops Clear s = Some (clear s)"

fun run :: "'T slice_ops \<Rightarrow> 'T set_call list \<Rightarrow> 'T DxvkBarrierSubresourceSet \<Rightarrow> 'T DxvkBarrierSubresourceSet option" where
  "run ops [] s = Some s"
| "run ops (c # cs) s = Option.bind (call ops c s) (run ops cs)"

section \<open>Auxiliary notions for the proofs\<close>

text \<open>
  A 21-bit field of the packed header at bit position \<open>s\<close>, written and read the
  way \<^verbatim>\<open>setParent\<close>, \<^verbatim>\<open>setChild\<close>, \<^verbatim>\<open>parent\<close> and \<^verbatim>\<open>child\<close> do it.
\<close>

definition put_field :: "nat \<Rightarrow> 32 word \<Rightarrow> 64 word \<Rightarrow> 64 word" where
  "put_field s v h = (h AND NOT (push_bit s (mask 21))) OR push_bit s (ucast v)"

definition get_field :: "nat \<Rightarrow> 64 word \<Rightarrow> 32 word" where
  "get_field s h = ucast (drop_bit s h AND mask 21)"

text \<open>Inputs of the worked examples.\<close>

definition example_node :: DxvkBarrierTreeNode where
  "example_node =
     \<lparr>header = 0x123456789ABCDEF1,
      addressRange = \<lparr>resource = 7, rangeStart = 0, rangeEnd = 99\<rparr>\<rparr>"

definition colour_read :: DxvkBarrierImageSlice where
  "colour_read =
     image_slice \<lparr>aspectMask = 1, baseMipLevel = 0, levelCount = 4,
                  baseArrayLayer = 0, layerCount = 2\<rparr> {Read}"

definition colour_write :: DxvkBarrierImageSlice where
  "colour_write =
     image_slice \<lparr>aspectMask = 1, baseMipLevel = 0, levelCount = 4,
                  baseArrayLayer = 0, layerCount = 2\<rparr> {Write}"

definition colour_read_next_layers :: DxvkBarrierImageSlice where
  "colour_read_next_layers =
     image_slice \<lparr>aspectMask = 1, baseMipLevel = 0, levelCount = 4,
                  baseArrayLayer = 2, layerCount = 2\<rparr> {Read}"

text \<open>
  Forty-five buffer handles \<open>1, \<dots>, 45\<close>, each written over its first sixteen
  bytes, and the same followed by a forty-sixth handle. The forty-sixth
  \<^verbatim>\<open>insert\<close> finds \<open>10 * 45 \<ge> 7 * 64\<close> and doubles the table.
\<close>

definition keys45 :: "(64 word \<times> DxvkBarrierBufferSlice) list" where
  "keys45 = map (\<lambda>n. (of_nat n, buffer_slice 0 16 {Write})) [1 ..< 46]"

definition keys46 :: "(64 word \<times> DxvkBarrierBufferSlice) list" where
  "keys46 = keys45 @ [(46, buffer_slice 0 16 {Write})]"

subsection \<open>Chains of the overflow list\<close>

text \<open>
  The \<^verbatim>\<open>next\<close> fields of the list, and the list entries reached from an index by
  following them: \<open>chained nx idx j\<close> holds when the walk
  \<^verbatim>\<open>list = getListEntry(idx); list = getListEntry(list->next); ...\<close> visits entry \<open>j\<close>.
  \<open>links_back\<close> says that every link points to an older entry.
\<close>

definition nexts :: "'T ListEntry list \<Rightarrow> 32 word list" where
  "nexts l = map le_next l"

inductive chained :: "32 word list \<Rightarrow> 32 word \<Rightarrow> nat \<Rightarrow> bool" for nx where
  head: "idx < NoEntry \<Longrightarrow> unat idx < length nx \<Longrightarrow> chained nx idx (unat idx)"
| step: "idx < NoEntry \<Longrightarrow> unat idx < length nx \<Longrightarrow> chained nx (nx ! unat idx) j
         \<Longrightarrow> chained nx idx j"

definition links_back :: "32 word list \<Rightarrow> bool" where
  "links_back nx \<longleftrightarrow> (\<forall>j < length nx. nx ! j < NoEntry \<longrightarrow> unat (nx ! j) < j)"

definition rank :: "32 word \<Rightarrow> nat" where
  "rank idx = (if idx < NoEntry then Suc (unat idx) else 0)"

subsection \<open>Containment of slices\<close>

text \<open>
  One slice contains another when its bounds enclose the other's bounds, its
  aspect mask includes the other's aspects, and its access flags include the
  other's flags. \<open>cont_ok\<close> collects what the invariant needs of \<^verbatim>\<open>merge\<close>.
\<close>

definition buffer_contains :: "DxvkBarrierBufferSlice \<Rightarrow> DxvkBarrierBufferSlice \<Rightarrow> bool" where
  "buffer_contains a b \<longleftrightarrow>
     buf_loAddr a \<le> buf_loAddr b \<and> buf_hiAddr b \<le> buf_hiAddr a \<and> buf_access b \<subseteq> buf_access a"

definition image_contains :: "DxvkBarrierImageSlice \<Rightarrow> DxvkBarrierImageSlice \<Rightarrow> bool" where
  "image_contains a b \<longleftrightarrow>
     img_aspects a OR img_aspects b = img_aspects a
   \<and> img_minLayer a \<le> img_minLayer b \<and> img_maxLayer b \<le> img_maxLayer a
   \<and> img_minLevel a \<le> img_minLevel b \<and> img_maxLevel b \<le> img_maxLevel a
   \<and> img_access b \<subseteq> img_access a"

definition cont_ok :: "'T slice_ops \<Rightarrow> ('T \<Rightarrow> 'T \<Rightarrow> bool) \<Rightarrow> bool" where
  "cont_ok ops cont \<longleftrightarrow>
     (\<forall>a. cont a a)
   \<and> (\<forall>a b x. cont a x \<longrightarrow> cont (op_merge ops a b) x)
   \<and> (\<forall>a b. cont (op_merge ops a b) b)
   \<and> (\<forall>a b x. cont a x \<longrightarrow> cont (op_merge ops a b) (op_merge ops x b))"

text \<open>
  The superset invariant of a state: the stored slice of every live hash entry
  contains every slice on the entry's chain.
\<close>

definition chains_contained :: "('T \<Rightarrow> 'T \<Rightarrow> bool) \<Rightarrow> 'T DxvkBarrierSubresourceSet \<Rightarrow> bool" where
  "chains_contained cont s \<longleftrightarrow>
     (\<forall>e \<in> set (m_hashMap s). he_version e = m_version s \<longrightarrow>
        (\<forall>j. chained (nexts (m_list s)) (he_next e) j \<longrightarrow>
           cont (he_data e) (le_data (m_list s ! j))))"

text \<open>
  The invariant in the form the queries use it: the stored slice of every live
  hash entry overlaps every slice on the entry's chain that overlaps itself, and
  its access flags include the flags of every slice on the chain.
\<close>

definition head_overlaps_chain :: "'T slice_ops \<Rightarrow> 'T DxvkBarrierSubresourceSet \<Rightarrow> bool" where
  "head_overlaps_chain ops s \<longleftrightarrow>
     (\<forall>e \<in> set (m_hashMap s). he_version e = m_version s \<longrightarrow>
        (\<forall>j. chained (nexts (m_list s)) (he_next e) j \<longrightarrow>
           (op_overlaps ops (le_data (m_list s ! j)) (le_data (m_list s ! j))
              \<longrightarrow> op_overlaps ops (he_data e) (le_data (m_list s ! j)))
         \<and> op_getAccess ops (le_data (m_list s ! j)) \<subseteq> op_getAccess ops (he_data e)))"

subsection \<open>Live entries and the invariant of reachable states\<close>

text \<open>
  The live entries of a table as a multiset, with the version field blanked so
  that an entry can be followed through a relocation, which changes its version.
\<close>

definition unversioned :: "'T HashEntry \<Rightarrow> 'T HashEntry" where
  "unversioned e = e\<lparr>he_version := 0\<rparr>"

definition live_entries :: "64 word \<Rightarrow> 'T HashEntry list \<Rightarrow> 'T HashEntry multiset" where
  "live_entries v hm = image_mset unversioned (filter_mset (\<lambda>e. he_version e = v) (mset hm))"

definition live :: "'T DxvkBarrierSubresourceSet \<Rightarrow> 'T HashEntry multiset" where
  "live s = live_entries (m_version s) (m_hashMap s)"

text \<open>What a relocation carries and what the table holds, old and new version together.\<close>

definition in_flight :: "64 word \<Rightarrow> 'T HashEntry list \<Rightarrow> 'T HashEntry \<Rightarrow> 'T HashEntry multiset" where
  "in_flight v hm entry =
     live_entries (v + 1) hm + live_entries v hm
       + (if he_version entry = v then {#unversioned entry#} else {#})"

definition versions_le :: "64 word \<Rightarrow> 'T HashEntry list \<Rightarrow> bool" where
  "versions_le w hm \<longleftrightarrow> (\<forall>e \<in> set hm. he_version e \<le> w)"

text \<open>
  The list part of the invariant: links point back, the heads of live entries are
  inside the list, no list entry is on the chains of two live entries, and every
  chain is contained in its entry's slice.
\<close>

definition chain_inv :: "('T \<Rightarrow> 'T \<Rightarrow> bool) \<Rightarrow> 'T DxvkBarrierSubresourceSet \<Rightarrow> bool" where
  "chain_inv cont s \<longleftrightarrow>
     links_back (nexts (m_list s))
   \<and> (\<forall>e \<in># live s. he_next e < NoEntry \<longrightarrow> unat (he_next e) < length (m_list s))
   \<and> (\<forall>j. size (filter_mset (\<lambda>e. chained (nexts (m_list s)) (he_next e) j) (live s)) \<le> 1)
   \<and> (\<forall>e \<in># live s. \<forall>j. chained (nexts (m_list s)) (he_next e) j
          \<longrightarrow> cont (he_data e) (le_data (m_list s ! j)))"

definition table_ok :: "'T DxvkBarrierSubresourceSet \<Rightarrow> nat \<Rightarrow> bool" where
  "table_ok s k \<longleftrightarrow> 6 \<le> k \<and> m_indexMask s = mask k \<and> length (m_hashMap s) = 2 ^ k"

text \<open>
  The invariant after at most \<open>n\<close> calls: the list part, no version above the
  current one, a table that is empty or of \<open>2 ^ k\<close> slots with mask \<open>2 ^ k - 1\<close>, and
  the counters within the bounds that keep the 32-bit list indices, the 64-bit
  version and the load-factor arithmetic from wrapping.
\<close>

definition set_inv :: "('T \<Rightarrow> 'T \<Rightarrow> bool) \<Rightarrow> nat \<Rightarrow> 'T DxvkBarrierSubresourceSet \<Rightarrow> bool" where
  "set_inv cont n s \<longleftrightarrow>
     chain_inv cont s
   \<and> versions_le (m_version s) (m_hashMap s)
   \<and> m_version s \<noteq> 0
   \<and> unat (m_version s) \<le> n + 1
   \<and> length (m_list s) \<le> 2 * n
   \<and> ((m_indexMask s = 0 \<and> m_hashMap s = [])
      \<or> (\<exists>k. table_ok s k \<and> 2 ^ k \<le> 64 + 4 * n))
   \<and> size (live s) \<le> unat (m_used s)
   \<and> unat (m_used s) \<le> n
   \<and> 10 * unat (m_used s) < 7 * length (m_hashMap s) + 10"

text \<open>The state between \<^verbatim>\<open>growHashMapBeforeInsert\<close> and the rest of \<^verbatim>\<open>insert\<close>.\<close>

definition mid_inv ::
  "('T \<Rightarrow> 'T \<Rightarrow> bool) \<Rightarrow> nat \<Rightarrow> nat \<Rightarrow> 'T DxvkBarrierSubresourceSet \<Rightarrow> bool" where
  "mid_inv cont n k s \<longleftrightarrow>
     chain_inv cont s
   \<and> versions_le (m_version s) (m_hashMap s)
   \<and> m_version s \<noteq> 0
   \<and> unat (m_version s) \<le> n + 2
   \<and> length (m_list s) \<le> 2 * n
   \<and> table_ok s k
   \<and> 2 ^ k \<le> 64 + 4 * (n + 1)
   \<and> size (live s) \<le> unat (m_used s)
   \<and> unat (m_used s) \<le> n
   \<and> 10 * unat (m_used s) < 7 * 2 ^ k"

text \<open>
  The two halves of the body of \<^verbatim>\<open>insert\<close> for an entry that is already there: the
  work on the list, and the final \<^verbatim>\<open>hashEntry->data.merge(slice)\<close>.
\<close>

definition listStep ::
  "'T slice_ops \<Rightarrow> 'T \<Rightarrow> nat \<Rightarrow> 'T DxvkBarrierSubresourceSet \<Rightarrow> 'T DxvkBarrierSubresourceSet option" where
  "listStep ops other h s =
     (if he_next (m_hashMap s ! h) < NoEntry then
        (if op_isImage ops then
           Option.bind (mergeListEntry ops other (m_list s) (he_next (m_hashMap s ! h)))
             (\<lambda>(l, merged).
                if merged then Some (s\<lparr>m_list := l\<rparr>)
                else Some (insertListEntry other h s))
         else Some (insertListEntry other h s))
      else if \<not> op_canMerge ops (he_data (m_hashMap s ! h)) other then
        Some (insertListEntry other h (insertListEntry (he_data (m_hashMap s ! h)) h s))
      else Some s)"

definition mergeHead :: "'T slice_ops \<Rightarrow> 'T \<Rightarrow> nat \<Rightarrow> 'T DxvkBarrierSubresourceSet \<Rightarrow> 'T DxvkBarrierSubresourceSet" where
  "mergeHead ops x h s =
     s\<lparr>m_hashMap := (m_hashMap s)
          [h := (m_hashMap s ! h)\<lparr>he_data := op_merge ops (he_data (m_hashMap s ! h)) x\<rparr>]\<rparr>"

subsection \<open>Call sequences of the worked examples\<close>

text \<open>
  Handle 1 with ten bytes read at offset 0 and then a slice of length zero at
  offset 20; the state these two inserts end in.
\<close>

definition zero_length_calls :: "DxvkBarrierBufferSlice set_call list" where
  "zero_length_calls =
     [Insert 1 (buffer_slice 0 10 {Read}), Insert 1 (buffer_slice 20 0 {Read})]"

definition zero_length_state :: "DxvkBarrierBufferSlice DxvkBarrierSubresourceSet" where
  "zero_length_state = the (run buffer_ops zero_length_calls init_set)"

definition two_buffer_calls :: "DxvkBarrierBufferSlice set_call list" where
  "two_buffer_calls =
     [Insert 1 (buffer_slice 0 64 {Read}), IsDirty 1 (buffer_slice 32 16 {Read}),
      Insert 1 (buffer_slice 128 64 {Write}), GetAccess 1 (buffer_slice 0 256 {})]"

definition two_buffer_state :: "DxvkBarrierBufferSlice DxvkBarrierSubresourceSet" where
  "two_buffer_state = the (run buffer_ops two_buffer_calls init_set)"

definition two_image_calls :: "DxvkBarrierImageSlice set_call list" where
  "two_image_calls =
     [Clear, Insert 1 colour_read,
      Insert 1 (image_slice \<lparr>aspectMask = 1, baseMipLevel = 2, levelCount = 1,
                             baseArrayLayer = 4, layerCount = 2\<rparr> {Write})]"

definition two_image_state :: "DxvkBarrierImageSlice DxvkBarrierSubresourceSet" where
  "two_image_state = the (run image_ops two_image_calls init_set)"

subsection \<open>The range tracker: trees and their invariant\<close>

text \<open>
  The ranges held by the nodes of a tree, and what the proofs keep of them: every
  node has \<open>rangeStart \<le> rangeEnd\<close>, and no two nodes of one tree overlap.
\<close>

definition nodes :: "range_tree \<Rightarrow> DxvkAddressRange set" where
  "nodes t = (\<lambda>(k, e). node_range k e) ` set (RBT_Impl.entries t)"








text \<open>
  The ranges inserted so far that belong to root index \<open>i\<close>, and the invariant of
  the tree at that index: every one of them is contained in a node, and the nodes
  cover no address outside them.
\<close>

definition bucket_ranges :: "(DxvkAddressRange \<times> DxvkAccess) list \<Rightarrow> nat \<Rightarrow> DxvkAddressRange set" where
  "bucket_ranges ins i = {r. \<exists>a. (r, a) \<in> set ins \<and> unat (computeRootIndex r a) = i}"



subsection \<open>The range tracker: ranges of the worked examples\<close>











section \<open>Slices: merging\<close>

lemma or_and_eq_0:
  "((a :: 'a::len word) OR b) AND x = 0 \<longleftrightarrow> a AND x = 0 \<and> b AND x = 0"
  by (simp add: bit.conj_disj_distrib2 or_eq_0_iff)

lemma buffer_overlaps_merge:
  "buffer_overlaps (buffer_merge a b) x \<longleftrightarrow>
     (buf_hiAddr a > buf_loAddr x \<or> buf_hiAddr b > buf_loAddr x)
   \<and> (buf_loAddr a < buf_hiAddr x \<or> buf_loAddr b < buf_hiAddr x)"
  by (simp add: buffer_overlaps_def buffer_merge_def min_less_iff_disj less_max_iff_disj)

lemma image_overlaps_merge:
  "image_overlaps (image_merge a b) x \<longleftrightarrow>
     (img_aspects a AND img_aspects x \<noteq> 0 \<or> img_aspects b AND img_aspects x \<noteq> 0)
   \<and> (img_minLayer a < img_maxLayer x \<or> img_minLayer b < img_maxLayer x)
   \<and> (img_maxLayer a > img_minLayer x \<or> img_maxLayer b > img_minLayer x)
   \<and> (img_minLevel a < img_maxLevel x \<or> img_minLevel b < img_maxLevel x)
   \<and> (img_maxLevel a > img_minLevel x \<or> img_maxLevel b > img_minLevel x)"
  by (simp add: image_overlaps_def image_merge_def min_less_iff_disj less_max_iff_disj
      or_and_eq_0)

text \<open>
  Claim C5, as the code has it. \<^verbatim>\<open>DxvkBarrierImageSlice::canMerge\<close> returns
  \<^verbatim>\<open>sameLayers\<close> whenever \<^verbatim>\<open>sameLayers == sameLevels\<close>, before the access flags are
  looked at. So two slices with the same layer range and the same level range can
  always be merged, whatever their access flags; with neither range the same they
  cannot; with exactly one range the same they can be merged exactly when the access
  flags are equal and the ranges of the other axis touch
  (\<open>max \<ge> other min\<close> and \<open>min \<le> other max\<close>).
\<close>

theorem image_canMerge_algebra:
  "image_canMerge a b =
     (if sameLayers a b \<and> sameLevels a b then True
      else if sameLayers a b then
        img_access a = img_access b
        \<and> img_maxLevel a \<ge> img_minLevel b \<and> img_minLevel a \<le> img_maxLevel b
      else if sameLevels a b then
        img_access a = img_access b
        \<and> img_maxLayer a \<ge> img_minLayer b \<and> img_minLayer a \<le> img_maxLayer b
      else False)"
  by (auto simp: image_canMerge_def)

text \<open>
  The claim as the spec words it asks for equal access flags when both ranges are
  the same. A read and a write of the same colour subresources have both ranges the
  same and different flags, and the code merges them.
\<close>

theorem image_canMerge_counterexample:
  "sameLayers colour_read colour_write \<and> sameLevels colour_read colour_write
   \<and> img_access colour_read \<noteq> img_access colour_write
   \<and> image_canMerge colour_read colour_write"
  by (simp add: image_canMerge_def sameLayers_def sameLevels_def colour_read_def
      colour_write_def image_slice_def)

theorem image_canMerge_algebra_witness:
  "image_canMerge colour_read colour_read_next_layers
   \<and> \<not> sameLayers colour_read colour_read_next_layers
   \<and> sameLevels colour_read colour_read_next_layers"
  using image_canMerge_algebra [of colour_read colour_read_next_layers]
  by (simp add: sameLayers_def sameLevels_def colour_read_def colour_read_next_layers_def
      image_slice_def)

text \<open>
  Claim C8. Merging is monotone for overlap, for buffer slices and for image
  slices: whatever overlapped \<open>a\<close> or \<open>b\<close> before \<^verbatim>\<open>a.merge(b)\<close> overlaps the
  merged slice.
\<close>

theorem merge_monotone_overlaps:
  "(buffer_overlaps a x \<or> buffer_overlaps b x \<longrightarrow> buffer_overlaps (buffer_merge a b) x)
   \<and> (image_overlaps c y \<or> image_overlaps d y \<longrightarrow> image_overlaps (image_merge c d) y)"
  unfolding buffer_overlaps_merge image_overlaps_merge
  by (auto simp: buffer_overlaps_def image_overlaps_def)

theorem merge_monotone_overlaps_witness:
  "buffer_overlaps (buffer_slice 128 64 {Write}) (buffer_slice 140 10 {Read})
   \<and> buffer_overlaps (buffer_merge (buffer_slice 0 64 {Read}) (buffer_slice 128 64 {Write}))
        (buffer_slice 140 10 {Read})
   \<and> image_overlaps colour_read colour_write
   \<and> image_overlaps (image_merge colour_read colour_read_next_layers) colour_write"
proof -
  have b: "buffer_overlaps (buffer_slice 128 64 {Write}) (buffer_slice 140 10 {Read})"
    by (simp add: buffer_overlaps_def buffer_slice_def)
  have i: "image_overlaps colour_read colour_write"
    by (simp add: image_overlaps_def colour_read_def colour_write_def image_slice_def)
  from b i
    merge_monotone_overlaps [of "buffer_slice 0 64 {Read}" "buffer_slice 140 10 {Read}"
      "buffer_slice 128 64 {Write}" colour_read colour_write colour_read_next_layers]
  show ?thesis by blast
qed

section \<open>Bucket routing\<close>

text \<open>
  Claim C9. The bucket index of the source is the bucket of the spec's formula,
  computed with 64-bit wrap-around; it lies in \<open>1..32\<close> for a read and in \<open>33..64\<close>
  for a write, and it is never the null index 0.
\<close>

theorem computeRootIndex_bucket:
  "unat (computeRootIndex r a) = spec_bucket (unat (resource r)) a
   \<and> (case a of
        Read \<Rightarrow> 1 \<le> unat (computeRootIndex r a) \<and> unat (computeRootIndex r a) \<le> 32
      | Write \<Rightarrow> 33 \<le> unat (computeRootIndex r a) \<and> unat (computeRootIndex r a) \<le> 64)
   \<and> computeRootIndex r a \<noteq> 0"
proof -
  define h0 :: "64 word" where "h0 = resource r * 93887"
  define h :: "64 word" where "h = h0 XOR drop_bit 16 h0"
  have u0: "unat h0 = (unat (resource r) * 93887) mod 2 ^ 64"
    by (simp add: h0_def unat_word_ariths)
  have uh: "unat h = unat h0 XOR (unat h0 div 2 ^ 16)"
    by (simp add: h_def unsigned_xor_eq unat_drop_bit_eq drop_bit_eq_div unat_div)
  have um: "unat (h mod 32) = unat h mod 32"
    by (simp add: unat_mod)
  have lt: "unat (h mod 32) < 32"
    by (simp add: um)
  have s1: "unat (1 + h mod 32) = 1 + unat (h mod 32)"
    using lt by (simp add: unat_word_ariths)
  have s2: "unat (1 + h mod 32 + 32) = 33 + unat (h mod 32)"
    using lt by (simp add: unat_word_ariths)
  have c: "computeRootIndex r a = ucast (1 + h mod 32 + (if a = Write then 32 else 0))"
    by (simp add: computeRootIndex_def Let_def h_def h0_def HashTableSize_def)
  have e: "unat (1 + h mod 32 + (if a = Write then 32 else 0))
      = 1 + unat h mod 32 + (if a = Write then 32 else 0)"
    using s1 s2 um by simp
  have m: "unat h mod 32 < 32"
    by simp
  have "unat h mod 32 < 4294967263"
    by (rule order.strict_trans [OF m]) simp
  then have "1 + unat h mod 32 + (if a = Write then 32 else 0) < 2 ^ 32"
    by simp
  with e have v: "unat (computeRootIndex r a) = 1 + unat h mod 32 + (if a = Write then 32 else 0)"
    unfolding c by (simp add: unsigned_ucast_eq take_bit_nat_eq_self)
  have eq: "unat (computeRootIndex r a) = spec_bucket (unat (resource r)) a"
    using v by (simp add: spec_bucket_def Let_def uh u0)
  have bounds: "case a of
        Read \<Rightarrow> 1 \<le> unat (computeRootIndex r a) \<and> unat (computeRootIndex r a) \<le> 32
      | Write \<Rightarrow> 33 \<le> unat (computeRootIndex r a) \<and> unat (computeRootIndex r a) \<le> 64"
    using v m by (cases a) simp_all
  have "unat (computeRootIndex r a) \<noteq> 0"
    using v by simp
  then have nz: "computeRootIndex r a \<noteq> 0"
    by auto
  from eq bounds nz show ?thesis by blast
qed

theorem computeRootIndex_bucket_witness:
  "unat (computeRootIndex \<lparr>resource = 7, rangeStart = 10, rangeEnd = 20\<rparr> Write) = 52
   \<and> spec_bucket 7 Write = 52"
  using computeRootIndex_bucket [of "\<lparr>resource = 7, rangeStart = 10, rangeEnd = 20\<rparr>" Write]
  by (simp add: spec_bucket_def)

section \<open>The packed node header\<close>

lemma NodeIndexMask_mask: "NodeIndexMask = mask 21"
  by (simp add: NodeIndexMask_def mask_eq_exp_minus_1)

lemma bit_small: "(v :: 32 word) < 2 ^ 21 \<Longrightarrow> bit v n \<Longrightarrow> n < 21"
  by (metis bit_take_bit_iff less_mask_eq take_bit_eq_mask)

lemma bit_small_num: "(v :: 32 word) < 2097152 \<Longrightarrow> bit v n \<Longrightarrow> n < 21"
  using bit_small [of v n] by simp

lemma bit_put_field:
  "v < 2 ^ 21 \<Longrightarrow> bit (put_field s v h) n \<longleftrightarrow>
     (if s \<le> n \<and> n < s + 21 then n < 64 \<and> bit v (n - s) else bit h n)"
  by (auto simp: put_field_def bit_simps dest: bit_small_num bit_imp_le_length)

lemma bit_get_field:
  "bit (get_field s h) n \<longleftrightarrow> n < 21 \<and> bit h (s + n)"
  by (auto simp: get_field_def bit_simps dest: bit_imp_le_length)

lemma get_put_same:
  "v < 2 ^ 21 \<Longrightarrow> s + 21 \<le> 64 \<Longrightarrow> get_field s (put_field s v h) = v"
  by (rule bit_word_eqI) (auto simp: bit_get_field bit_put_field dest: bit_small_num)

lemma get_put_other:
  "v < 2 ^ 21 \<Longrightarrow> t + 21 \<le> s \<or> s + 21 \<le> t \<Longrightarrow>
   get_field t (put_field s v h) = get_field t h"
  by (rule bit_word_eqI) (auto simp: bit_get_field bit_put_field)

lemma isRed_bit: "isRed n \<longleftrightarrow> bit (header n) 0"
  by (simp add: isRed_def and_one_eq bit_0 odd_iff_mod_2_eq_one)

lemma bit_header_setRed:
  "bit (header (setRed b n)) k \<longleftrightarrow> (if k = 0 then b else bit (header n) k)"
  by (auto simp: setRed_def bit_simps bit_0 dest: bit_imp_le_length)

lemma header_setParent: "header (setParent v n) = put_field 43 v (header n)"
  by (simp add: setParent_def put_field_def NodeIndexMask_mask)

lemma header_setChild: "header (setChild i v n) = put_field (childShift i) v (header n)"
  by (simp add: setChild_def put_field_def NodeIndexMask_mask)

lemma parent_get: "parent n = get_field 43 (header n)"
  by (simp add: parent_def get_field_def NodeIndexMask_mask)

lemma child_get: "child i n = get_field (childShift i) (header n)"
  by (simp add: child_def get_field_def NodeIndexMask_mask)

lemma childShift_cases: "childShift i = 1 \<or> childShift i = 22"
  by (simp add: childShift_def)

lemma setParent_fields:
  assumes "v < 2 ^ 21"
  shows "parent (setParent v n) = v" "isRed (setParent v n) = isRed n"
    "child i (setParent v n) = child i n"
proof -
  show "parent (setParent v n) = v"
    using assms by (simp add: parent_get header_setParent get_put_same)
  show "isRed (setParent v n) = isRed n"
    using assms by (simp add: isRed_bit header_setParent bit_put_field)
  show "child i (setParent v n) = child i n"
    using assms childShift_cases [of i]
    by (auto simp: child_get header_setParent get_put_other)
qed

lemma setChild_fields:
  assumes "v < 2 ^ 21"
  shows "childShift j = childShift i \<Longrightarrow> child j (setChild i v n) = v"
    "childShift j \<noteq> childShift i \<Longrightarrow> child j (setChild i v n) = child j n"
    "isRed (setChild i v n) = isRed n"
    "parent (setChild i v n) = parent n"
proof -
  show "childShift j = childShift i \<Longrightarrow> child j (setChild i v n) = v"
    using assms childShift_cases [of i]
    by (auto simp: child_get header_setChild get_put_same)
  show "childShift j \<noteq> childShift i \<Longrightarrow> child j (setChild i v n) = child j n"
    using assms childShift_cases [of i] childShift_cases [of j]
    by (auto simp: child_get header_setChild get_put_other)
  show "isRed (setChild i v n) = isRed n"
    using assms childShift_cases [of i]
    by (auto simp: isRed_bit header_setChild bit_put_field)
  show "parent (setChild i v n) = parent n"
    using assms childShift_cases [of i]
    by (auto simp: parent_get header_setChild get_put_other)
qed

lemma setRed_fields:
  shows "isRed (setRed b n) = b" "parent (setRed b n) = parent n"
    "child i (setRed b n) = child i n"
proof -
  show "isRed (setRed b n) = b"
    by (simp add: isRed_bit bit_header_setRed)
  show "parent (setRed b n) = parent n"
    by (rule bit_word_eqI) (simp add: parent_get bit_get_field bit_header_setRed)
  show "child i (setRed b n) = child i n"
    using childShift_cases [of i]
    by - (rule bit_word_eqI, auto simp: child_get bit_get_field bit_header_setRed)
qed

text \<open>
  Claim C10. The packed header behaves as four independent fields. For a node index
  \<open>v\<close> below \<open>2^21\<close>: \<^verbatim>\<open>setParent(v)\<close> makes \<^verbatim>\<open>parent()\<close> return \<open>v\<close> and leaves the
  colour and both children; \<^verbatim>\<open>setChild(i, v)\<close> for \<open>i\<close> in \<open>{0, 1}\<close> makes
  \<^verbatim>\<open>child(i)\<close> return \<open>v\<close> and leaves the colour, the other child and the parent;
  \<^verbatim>\<open>setRed(b)\<close> makes \<^verbatim>\<open>isRed()\<close> return \<open>b\<close> and leaves both children and the
  parent.
\<close>

theorem header_fields_independent:
  assumes "v < 2 ^ 21"
  shows
    "parent (setParent v n) = v \<and> isRed (setParent v n) = isRed n
     \<and> child 0 (setParent v n) = child 0 n \<and> child 1 (setParent v n) = child 1 n
     \<and> child 0 (setChild 0 v n) = v \<and> child 1 (setChild 0 v n) = child 1 n
     \<and> isRed (setChild 0 v n) = isRed n \<and> parent (setChild 0 v n) = parent n
     \<and> child 1 (setChild 1 v n) = v \<and> child 0 (setChild 1 v n) = child 0 n
     \<and> isRed (setChild 1 v n) = isRed n \<and> parent (setChild 1 v n) = parent n
     \<and> isRed (setRed b n) = b \<and> child 0 (setRed b n) = child 0 n
     \<and> child 1 (setRed b n) = child 1 n \<and> parent (setRed b n) = parent n"
proof -
  have d: "childShift 1 \<noteq> childShift 0"
    by (simp add: childShift_def)
  note p = setParent_fields [OF assms]
  note c = setChild_fields [OF assms]
  show ?thesis
    using d by (simp add: p c setRed_fields)
qed

theorem header_fields_independent_witness:
  "(5 :: 32 word) < 2 ^ 21
   \<and> parent (setParent 5 example_node) = 5
   \<and> child 0 (setParent 5 example_node) = child 0 example_node
   \<and> child 1 (setChild 1 5 example_node) = 5
   \<and> parent (setChild 1 5 example_node) = parent example_node
   \<and> isRed (setRed False example_node) = False
   \<and> parent (setRed False example_node) = parent example_node"
proof -
  have h: "(5 :: 32 word) < 2 ^ 21" by simp
  from h header_fields_independent [OF h, of example_node False]
  show ?thesis by blast
qed

section \<open>The subresource set: clear\<close>

text \<open>
  Claim C6. After \<^verbatim>\<open>clear()\<close>, whatever the set held, \<^verbatim>\<open>getAccess\<close> returns the empty
  flag set and \<^verbatim>\<open>isDirty\<close> returns false for every key and slice, \<^verbatim>\<open>m_used\<close> is 0 and
  \<^verbatim>\<open>empty()\<close> is true. Both queries return (they are not \<open>None\<close>), and neither changes
  the state, so this holds for every query until the next \<^verbatim>\<open>insert\<close>. The state \<open>s\<close>
  is any value of the class's members, reachable or not, and \<open>ops\<close> any slice type.
\<close>

theorem clear_forgets_everything:
  "getAccess ops (clear s) k q = Some {}
   \<and> isDirty ops (clear s) k q = Some False
   \<and> m_used (clear s) = 0
   \<and> is_empty (clear s)"
  by (simp add: getAccess_def isDirty_def findHashEntry_def clear_def is_empty_def)

section \<open>The subresource set: growing the table\<close>

lemma insert_all_append:
  "insert_all ops (xs @ ys) s = Option.bind (insert_all ops xs s) (insert_all ops ys)"
  by (induction xs arbitrary: s) (auto split: Option.bind_split)

text \<open>
  One run of the forty-six inserts: the answers for handle 1 after forty-five
  inserts, and the lookups of handles 2, 4 and 6 after the forty-sixth.
\<close>

lemma growth_run:
  "Option.bind (insert_all buffer_ops keys45 init_set) (\<lambda>s.
     Option.bind (insert_slice buffer_ops 46 (buffer_slice 0 16 {Write}) s) (\<lambda>s'.
       Some ((getAccess buffer_ops s 2 (buffer_slice 0 16 {}),
              isDirty buffer_ops s 2 (buffer_slice 0 16 {})),
             (findHashEntry s' 2, findHashEntry s' 4, findHashEntry s' 6))))
   = Some ((Some {Write}, Some True), (Some None, Some None, Some None))"
  by code_simp

lemma growth_states:
  "\<exists>s s'. insert_all buffer_ops keys45 init_set = Some s
     \<and> insert_all buffer_ops keys46 init_set = Some s'
     \<and> getAccess buffer_ops s 2 (buffer_slice 0 16 {}) = Some {Write}
     \<and> isDirty buffer_ops s 2 (buffer_slice 0 16 {}) = Some True
     \<and> findHashEntry s' 2 = Some None
     \<and> findHashEntry s' 4 = Some None
     \<and> findHashEntry s' 6 = Some None"
  using growth_run
  by (auto simp: keys46_def insert_all_append split: Option.bind_splits)

text \<open>
  Claim C7 asks that growing the table keeps every answer. It does not. The
  forty-sixth \<^verbatim>\<open>insert\<close> of a new handle finds \<open>10 * 45 \<ge> 7 * 64\<close> and calls
  \<^verbatim>\<open>growHashMap(128)\<close>. Handle 2, inserted with \<^verbatim>\<open>Write\<close> over bytes 0 to 15, is
  found before that call: \<^verbatim>\<open>getAccess\<close> gives \<open>{Write}\<close> and \<^verbatim>\<open>isDirty\<close> true. After the
  call it is not found: \<^verbatim>\<open>getAccess\<close> gives the empty set and \<^verbatim>\<open>isDirty\<close> false. (Its
  hash selects slot 124 under the new mask, and the relocation, which still runs
  under the old mask 63, never writes a slot above 63.)
\<close>

theorem growHashMap_loses_entries:
  "Option.bind (insert_all buffer_ops keys45 init_set)
     (\<lambda>s. getAccess buffer_ops s 2 (buffer_slice 0 16 {})) = Some {Write}
   \<and> Option.bind (insert_all buffer_ops keys45 init_set)
     (\<lambda>s. isDirty buffer_ops s 2 (buffer_slice 0 16 {})) = Some True
   \<and> Option.bind (insert_all buffer_ops keys46 init_set)
     (\<lambda>s. getAccess buffer_ops s 2 (buffer_slice 0 16 {})) = Some {}
   \<and> Option.bind (insert_all buffer_ops keys46 init_set)
     (\<lambda>s. isDirty buffer_ops s 2 (buffer_slice 0 16 {})) = Some False"
  using growth_states by (auto simp: getAccess_def isDirty_def)

text \<open>
  Claim C2 at the same input: after the forty-six inserts \<^verbatim>\<open>getAccess\<close> for handle 4
  and bytes 0 to 15 is empty, although the slice inserted for handle 4 overlaps
  the query and carries \<^verbatim>\<open>Write\<close>.
\<close>

theorem getAccess_after_growth:
  "Option.bind (insert_all buffer_ops keys46 init_set)
     (\<lambda>s. getAccess buffer_ops s 4 (buffer_slice 0 16 {})) = Some {}
   \<and> (4, buffer_slice 0 16 {Write}) \<in> set keys46
   \<and> buffer_overlaps (buffer_slice 0 16 {Write}) (buffer_slice 0 16 {})"
proof -
  have "(4, buffer_slice 0 16 {Write}) \<in> set keys46"
    by code_simp
  moreover have "buffer_overlaps (buffer_slice 0 16 {Write}) (buffer_slice 0 16 {})"
    by (simp add: buffer_overlaps_def buffer_slice_def)
  ultimately show ?thesis
    using growth_states by (auto simp: getAccess_def)
qed

text \<open>
  Claim C3 at the same input: after the forty-six inserts \<^verbatim>\<open>isDirty\<close> for handle 6
  and a read of bytes 0 to 15 is false, although the slice inserted for handle 6
  overlaps the query and carries \<^verbatim>\<open>Write\<close>.
\<close>

theorem isDirty_after_growth:
  "Option.bind (insert_all buffer_ops keys46 init_set)
     (\<lambda>s. isDirty buffer_ops s 6 (buffer_slice 0 16 {Read})) = Some False
   \<and> (6, buffer_slice 0 16 {Write}) \<in> set keys46
   \<and> buffer_isDirty (buffer_slice 0 16 {Write}) (buffer_slice 0 16 {Read})"
proof -
  have "(6, buffer_slice 0 16 {Write}) \<in> set keys46"
    by code_simp
  moreover have "buffer_isDirty (buffer_slice 0 16 {Write}) (buffer_slice 0 16 {Read})"
    by (simp add: buffer_isDirty_def buffer_overlaps_def buffer_slice_def)
  ultimately show ?thesis
    using growth_states by (auto simp: isDirty_def)
qed

section \<open>The subresource set: what growing the table keeps\<close>

lemma unversioned_version [simp]: "unversioned (e\<lparr>he_version := w\<rparr>) = unversioned e"
  by (simp add: unversioned_def)

lemmas findSlot_induct = findSlot.raw_induct [rotated, consumes 1, case_names step]

lemmas relocate_induct = relocate.raw_induct [rotated, consumes 1, case_names step]

lemma word_less_succ: "(v :: 'a::len word) + 1 \<noteq> 0 \<Longrightarrow> v < v + 1"
  using unatSuc [of v] by (simp add: word_less_nat_alt add.commute)

lemma findSlot_Some:
  assumes "findSlot hm v msk idx = Some r"
  shows "r < length hm \<and> \<not> v < he_version (hm ! r)"
  using assms by (induction rule: findSlot_induct) (auto split: if_splits)

lemma live_entries_update:
  assumes "i < length hm"
  shows "live_entries w (hm[i := e]) =
           live_entries w hm
             - (if he_version (hm ! i) = w then {#unversioned (hm ! i)#} else {#})
             + (if he_version e = w then {#unversioned e#} else {#})"
proof -
  have m: "hm ! i \<in># mset hm"
    using assms by (simp add: nth_mem_mset)
  show ?thesis
    using assms m
    by (auto simp: live_entries_def mset_update image_mset_Diff)
qed

lemma in_flight_step:
  assumes "idx < length hm" "\<not> v < he_version (hm ! idx)" "he_version entry = v" "v + 1 \<noteq> 0"
  shows "in_flight v (hm[idx := entry\<lparr>he_version := v + 1\<rparr>]) (hm ! idx) = in_flight v hm entry"
proof -
  have lt: "v < v + 1"
    using assms(4) by (rule word_less_succ)
  have ne: "he_version (hm ! idx) \<noteq> v + 1"
    using assms(2) lt by auto
  have nv: "v + 1 \<noteq> v"
    using lt by simp
  have m: "he_version (hm ! idx) = v \<Longrightarrow> unversioned (hm ! idx) \<in># live_entries v hm"
    using assms(1) by (auto simp: live_entries_def nth_mem_mset)
  show ?thesis
    using assms ne nv m
    by (auto simp: in_flight_def live_entries_update)
qed

lemma relocate_in_flight:
  assumes "relocate v msk hm entry = Some hm'"
  shows "v + 1 \<noteq> 0 \<longrightarrow>
    live_entries (v + 1) hm' + live_entries v hm' = in_flight v hm entry \<and> length hm' = length hm"
  using assms
proof (induction rule: relocate_induct)
  case (step relocate v msk hm entry hm')
  note 1 = step
  show ?case
  proof (cases "he_version entry = v")
    case False
    with 1(2) show ?thesis by (simp add: in_flight_def)
  next
    case True
    with 1(2) obtain idx where f: "findSlot hm v msk (computeHash (he_key entry) AND msk) = Some idx"
      and r: "relocate v msk (hm[idx := entry\<lparr>he_version := v + 1\<rparr>]) (hm ! idx) = Some hm'"
      by (auto split: Option.bind_splits)
    from findSlot_Some [OF f] have i: "idx < length hm" "\<not> v < he_version (hm ! idx)"
      by auto
    show ?thesis
    proof
      assume nz: "v + 1 \<noteq> 0"
      from 1(1) [OF r] nz in_flight_step [OF i True nz]
      show "live_entries (v + 1) hm' + live_entries v hm' = in_flight v hm entry \<and> length hm' = length hm"
        by simp
    qed
  qed
qed

lemma versions_le_update:
  "versions_le w hm \<Longrightarrow> he_version e \<le> w \<Longrightarrow> versions_le w (hm[i := e])"
  unfolding versions_le_def using set_update_subset_insert [of hm i e] by auto

lemma versions_le_nth: "versions_le w hm \<Longrightarrow> i < length hm \<Longrightarrow> he_version (hm ! i) \<le> w"
  by (simp add: versions_le_def)

lemma relocate_versions:
  assumes "relocate v msk hm entry = Some hm'"
  shows "versions_le (v + 1) hm \<longrightarrow> versions_le (v + 1) hm'"
  using assms
proof (induction rule: relocate_induct)
  case (step relocate v msk hm entry hm')
  show ?case
  proof (cases "he_version entry = v")
    case False
    with step(2) show ?thesis by simp
  next
    case True
    with step(2) obtain idx where f: "findSlot hm v msk (computeHash (he_key entry) AND msk) = Some idx"
      and r: "relocate v msk (hm[idx := entry\<lparr>he_version := v + 1\<rparr>]) (hm ! idx) = Some hm'"
      by (auto split: Option.bind_splits)
    show ?thesis
      using step(1) [OF r] by (auto intro: versions_le_update)
  qed
qed

lemma live_entries_mono_sum:
  assumes "i < length hm" "v \<noteq> 0" "v + 1 \<noteq> 0"
  shows "in_flight v (hm[i := (hm ! i)\<lparr>he_version := 0\<rparr>]) (hm ! i)
           \<subseteq># live_entries (v + 1) hm + live_entries v hm"
proof -
  have nv: "v + 1 \<noteq> v"
    using word_less_succ [OF assms(3)] by simp
  have m: "he_version (hm ! i) = w \<Longrightarrow> unversioned (hm ! i) \<in># live_entries w hm" for w
    using assms(1) by (auto simp: live_entries_def nth_mem_mset)
  show ?thesis
  proof (cases "he_version (hm ! i) = v")
    case True
    then show ?thesis
      using assms nv m [of v] by (simp add: in_flight_def live_entries_update)
  next
    case False
    then show ?thesis
      using assms nv
      by (auto simp: in_flight_def live_entries_update intro: diff_subset_eq_self)
  qed
qed

lemma relocateAll_live:
  assumes "relocateAll v msk idxs hm = Some hm'" "v \<noteq> 0" "v + 1 \<noteq> 0"
  shows "live_entries (v + 1) hm' + live_entries v hm'
           \<subseteq># live_entries (v + 1) hm + live_entries v hm
         \<and> length hm' = length hm
         \<and> (versions_le (v + 1) hm \<longrightarrow> versions_le (v + 1) hm')"
  using assms(1)
proof (induction idxs arbitrary: hm)
  case Nil
  then show ?case by simp
next
  case (Cons i idxs)
  from Cons.prems obtain hm1 where i: "i < length hm"
    and r: "relocate v msk (hm[i := (hm ! i)\<lparr>he_version := 0\<rparr>]) (hm ! i) = Some hm1"
    and a: "relocateAll v msk idxs hm1 = Some hm'"
    by (auto split: if_splits Option.bind_splits)
  from relocate_in_flight [OF r] assms(3)
  have 1: "live_entries (v + 1) hm1 + live_entries v hm1
             = in_flight v (hm[i := (hm ! i)\<lparr>he_version := 0\<rparr>]) (hm ! i)"
    and l1: "length hm1 = length hm"
    by auto
  have 2: "live_entries (v + 1) hm1 + live_entries v hm1
             \<subseteq># live_entries (v + 1) hm + live_entries v hm"
    unfolding 1 by (rule live_entries_mono_sum [OF i assms(2) assms(3)])
  have 3: "versions_le (v + 1) hm \<longrightarrow> versions_le (v + 1) hm1"
    using relocate_versions [OF r] by (auto intro: versions_le_update)
  from Cons.IH [OF a] 2 3 l1 show ?case
    by (auto intro: subset_mset.order_trans)
qed

lemma length_resize [simp]: "length (resize n d xs) = n"
  by (simp add: resize_def)

lemma mset_take_subset: "mset (take n xs) \<subseteq># mset xs"
proof -
  have "mset xs = mset (take n xs) + mset (drop n xs)"
    by (metis append_take_drop_id mset_append)
  then show ?thesis by simp
qed

lemma live_entries_resize:
  assumes "v \<noteq> 0"
  shows "live_entries v (resize n (defaultEntry ops) hm) \<subseteq># live_entries v hm"
proof -
  have "filter_mset (\<lambda>e. he_version e = v) (mset (resize n (defaultEntry ops) hm))
          = filter_mset (\<lambda>e. he_version e = v) (mset (take n hm))"
    using assms by (auto simp: resize_def defaultEntry_def)
  also have "\<dots> \<subseteq># filter_mset (\<lambda>e. he_version e = v) (mset hm)"
    by (rule multiset_filter_mono [OF mset_take_subset])
  finally show ?thesis
    unfolding live_entries_def by (rule image_mset_subseteq_mono)
qed

lemma versions_le_resize:
  "versions_le v hm \<Longrightarrow> versions_le v (resize n (defaultEntry ops) hm)"
  by (auto simp: versions_le_def resize_def defaultEntry_def dest: in_set_takeD)

lemma live_entries_above:
  assumes "versions_le v hm" "v < w"
  shows "live_entries w hm = {#}"
  using assms by (fastforce simp: live_entries_def versions_le_def)

lemma versions_le_mono: "versions_le v hm \<Longrightarrow> v \<le> w \<Longrightarrow> versions_le w hm"
  by (auto simp: versions_le_def)

lemma growHashMap_live:
  assumes g: "growHashMap ops newSize s = Some s'"
    and v: "versions_le (m_version s) (m_hashMap s)"
    and nz: "m_version s \<noteq> 0" "m_version s + 1 \<noteq> 0"
  shows "live_entries (m_version s') (m_hashMap s') \<subseteq># live_entries (m_version s) (m_hashMap s)"
    and "versions_le (m_version s') (m_hashMap s')"
    and "m_version s' = m_version s + 1"
    and "m_list s' = m_list s"
    and "m_used s' = m_used s"
    and "m_indexMask s' = newSize - 1"
    and "length (m_hashMap s') = unat newSize"
proof -
  let ?v = "m_version s"
  let ?R = "resize (unat newSize) (defaultEntry ops) (m_hashMap s)"
  from g obtain hm' where
    r: "relocateAll ?v (m_indexMask s) [0 ..< unat (computeSize s)] ?R = Some hm'"
    and s': "s' = s\<lparr>m_hashMap := hm', m_version := ?v + 1, m_indexMask := newSize - 1\<rparr>"
    by (auto simp: growHashMap_def split: Option.bind_splits)
  have lt: "?v < ?v + 1"
    by (rule word_less_succ [OF nz(2)])
  have vr: "versions_le ?v ?R"
    by (rule versions_le_resize [OF v])
  have e: "live_entries (?v + 1) ?R = {#}"
    by (rule live_entries_above [OF vr lt])
  have vr1: "versions_le (?v + 1) ?R"
    using versions_le_mono [OF vr] lt by simp
  from relocateAll_live [OF r nz]
  have 1: "live_entries (?v + 1) hm' + live_entries ?v hm' \<subseteq># live_entries ?v ?R"
    and 2: "length hm' = unat newSize" and 3: "versions_le (?v + 1) hm'"
    using vr1 by (simp_all add: e)
  have "live_entries (?v + 1) hm' \<subseteq># live_entries (?v + 1) hm' + live_entries ?v hm'"
    by simp
  also note 1
  also note live_entries_resize [OF nz(1)]
  finally show "live_entries (m_version s') (m_hashMap s') \<subseteq># live_entries (m_version s) (m_hashMap s)"
    by (simp add: s')
  show "versions_le (m_version s') (m_hashMap s')" using 3 by (simp add: s')
  show "m_version s' = m_version s + 1" "m_list s' = m_list s" "m_used s' = m_used s"
    "m_indexMask s' = newSize - 1"
    by (simp_all add: s')
  show "length (m_hashMap s') = unat newSize" using 2 by (simp add: s')
qed

section \<open>The subresource set: chains\<close>

lemma unat_NoEntry: "unat NoEntry = 2 ^ 32 - 1"
  by (simp add: NoEntry_def unsigned_minus_1_eq_mask mask_eq_exp_minus_1)

lemma less_NoEntry: "idx < NoEntry \<longleftrightarrow> unat idx < 2 ^ 32 - 1"
  by (simp add: word_less_nat_alt unat_NoEntry)

lemma not_less_NoEntry: "\<not> idx < NoEntry \<longleftrightarrow> idx = NoEntry"
proof -
  have "idx = NoEntry \<longleftrightarrow> unat idx = unat NoEntry"
    by (simp add: word_unat_eq_iff)
  then show ?thesis
    using unsigned_less [of idx, where ?'a = nat] by (auto simp: less_NoEntry unat_NoEntry)
qed

lemma unat_index: "n < 2 ^ 32 - 1 \<Longrightarrow> unat (of_nat n :: 32 word) = n \<and> (of_nat n :: 32 word) < NoEntry"
  by (simp add: less_NoEntry unat_of_nat)

lemma chainedD: "chained nx idx j \<Longrightarrow> j < length nx \<and> idx < NoEntry \<and> unat idx < length nx"
  by (induction rule: chained.induct) auto

lemma chained_le: "chained nx idx j \<Longrightarrow> links_back nx \<Longrightarrow> j \<le> unat idx"
proof (induction rule: chained.induct)
  case (head idx)
  then show ?case by simp
next
  case (step idx j)
  from step.hyps(3) have "nx ! unat idx < NoEntry"
    by (auto dest: chainedD)
  with step.prems step.hyps(2) have "unat (nx ! unat idx) < unat idx"
    by (simp add: links_back_def)
  with step show ?case by simp
qed

lemma chained_append1: "chained nx idx j \<Longrightarrow> chained (nx @ ys) idx j"
proof (induction rule: chained.induct)
  case (head idx)
  then show ?case by (simp add: chained.head)
next
  case (step idx j)
  then show ?case by (auto intro: chained.step simp: nth_append)
qed

lemma chained_append2:
  assumes "links_back nx"
  shows "chained (nx @ ys) idx j \<Longrightarrow> unat idx < length nx \<Longrightarrow> chained nx idx j"
proof (induction rule: chained.induct)
  case (head idx)
  then show ?case by (simp add: chained.head)
next
  case (step idx j)
  from step.hyps(3) have "nx ! unat idx < NoEntry"
    using step.prems by (auto dest: chainedD simp: nth_append)
  with assms step.prems have "unat (nx ! unat idx) < length nx"
    by (fastforce simp: links_back_def)
  with step show ?case
    by (auto intro: chained.step simp: nth_append)
qed

lemma chained_new:
  assumes lb: "links_back nx" and n: "length nx < 2 ^ 32 - 1"
    and p: "p < NoEntry \<longrightarrow> unat p < length nx"
  shows "chained (nx @ [p]) (of_nat (length nx)) j \<longleftrightarrow> j = length nx \<or> chained nx p j"
proof
  note u = unat_index [OF n]
  assume "chained (nx @ [p]) (of_nat (length nx)) j"
  then show "j = length nx \<or> chained nx p j"
  proof (cases rule: chained.cases)
    case head
    then show ?thesis using u by simp
  next
    case step
    then have c: "chained (nx @ [p]) p j" using u by simp
    then have "p < NoEntry" by (auto dest: chainedD)
    with p chained_append2 [OF lb c] show ?thesis by simp
  qed
next
  note u = unat_index [OF n]
  assume "j = length nx \<or> chained nx p j"
  then show "chained (nx @ [p]) (of_nat (length nx)) j"
  proof
    assume "j = length nx"
    with chained.head [of "of_nat (length nx)" "nx @ [p]"] u show ?thesis by simp
  next
    assume "chained nx p j"
    then have "chained (nx @ [p]) p j" by (rule chained_append1)
    with chained.step [of "of_nat (length nx)" "nx @ [p]" j] u show ?thesis by simp
  qed
qed

lemma links_back_append:
  "links_back nx \<Longrightarrow> (p < NoEntry \<longrightarrow> unat p < length nx) \<Longrightarrow> links_back (nx @ [p])"
  by (auto simp: links_back_def nth_append less_Suc_eq)

section \<open>The subresource set: the list invariant\<close>

lemma sole_owner:
  assumes "size (filter_mset P M) \<le> 1" "e \<in># M" "P e"
  shows "\<forall>t \<in># M - {#e#}. \<not> P t"
proof -
  have "e \<in># filter_mset P M"
    using assms by simp
  then have "size (filter_mset P M - {#e#}) = size (filter_mset P M) - 1"
    by (rule size_Diff_singleton)
  with assms(1) have "filter_mset P M - {#e#} = {#}"
    by simp
  with assms(3) have "filter_mset P (M - {#e#}) = {#}"
    by simp
  then show ?thesis
    unfolding filter_mset_eq_mempty_iff by blast
qed

lemma chain_inv_replace:
  assumes inv: "chain_inv cont s"
    and M0: "M0 \<subseteq># live s"
    and live': "live s' = add_mset e' M0"
    and lb: "links_back (nexts (m_list s'))"
    and same: "\<And>t j. t \<in># M0 \<Longrightarrow>
        (chained (nexts (m_list s')) (he_next t) j \<longleftrightarrow> chained (nexts (m_list s)) (he_next t) j)
        \<and> (chained (nexts (m_list s)) (he_next t) j \<longrightarrow> le_data (m_list s' ! j) = le_data (m_list s ! j))"
    and len: "length (m_list s) \<le> length (m_list s')"
    and nx: "he_next e' < NoEntry \<longrightarrow> unat (he_next e') < length (m_list s')"
    and new: "\<And>j. chained (nexts (m_list s')) (he_next e') j \<Longrightarrow>
        cont (he_data e') (le_data (m_list s' ! j))
        \<and> (\<forall>t \<in># M0. \<not> chained (nexts (m_list s)) (he_next t) j)"
  shows "chain_inv cont s'"
proof -
  let ?P = "\<lambda>j e. chained (nexts (m_list s)) (he_next e) j"
  let ?P' = "\<lambda>j e. chained (nexts (m_list s')) (he_next e) j"
  have in_live: "t \<in># live s" if "t \<in># M0" for t
    using M0 that by (rule mset_subset_eqD)
  have a: "\<forall>e \<in># live s'. he_next e < NoEntry \<longrightarrow> unat (he_next e) < length (m_list s')"
  proof
    fix e assume "e \<in># live s'"
    then consider "e = e'" | "e \<in># M0" by (auto simp: live')
    then show "he_next e < NoEntry \<longrightarrow> unat (he_next e) < length (m_list s')"
    proof cases
      case 1
      then show ?thesis using nx by simp
    next
      case 2
      with inv in_live len show ?thesis by (fastforce simp: chain_inv_def)
    qed
  qed
  have eq: "filter_mset (?P' j) M0 = filter_mset (?P j) M0" for j
    by (rule filter_mset_cong) (simp_all add: same)
  have b: "size (filter_mset (?P' j) (live s')) \<le> 1" for j
  proof (cases "?P' j e'")
    case True
    from new [OF True] have "filter_mset (?P j) M0 = {#}"
      by simp
    with True show ?thesis by (simp add: live' eq)
  next
    case False
    have "size (filter_mset (?P j) M0) \<le> size (filter_mset (?P j) (live s))"
      by (rule size_mset_mono [OF multiset_filter_mono [OF M0]])
    also have "\<dots> \<le> 1"
      using inv by (simp add: chain_inv_def)
    finally show ?thesis using False by (simp add: live' eq)
  qed
  have c: "\<forall>e \<in># live s'. \<forall>j. ?P' j e \<longrightarrow> cont (he_data e) (le_data (m_list s' ! j))"
  proof (intro ballI allI impI)
    fix e j assume e: "e \<in># live s'" and ch: "?P' j e"
    from e consider "e = e'" | "e \<in># M0" by (auto simp: live')
    then show "cont (he_data e) (le_data (m_list s' ! j))"
    proof cases
      case 1
      with new ch show ?thesis by simp
    next
      case 2
      with same [OF 2, of j] ch have "?P j e" "le_data (m_list s' ! j) = le_data (m_list s ! j)"
        by simp_all
      with inv in_live [OF 2] show ?thesis by (simp add: chain_inv_def)
    qed
  qed
  from lb a b c show ?thesis
    unfolding chain_inv_def by blast
qed

lemma chain_inv_subset:
  assumes inv: "chain_inv cont s" and sub: "live s' \<subseteq># live s" and l: "m_list s' = m_list s"
  shows "chain_inv cont s'"
proof -
  have in_live: "t \<in># live s" if "t \<in># live s'" for t
    using sub that by (rule mset_subset_eqD)
  have a: "links_back (nexts (m_list s'))"
    using inv by (simp add: chain_inv_def l)
  have b: "\<forall>e \<in># live s'. he_next e < NoEntry \<longrightarrow> unat (he_next e) < length (m_list s')"
    using inv in_live by (simp add: chain_inv_def l)
  have c: "size (filter_mset (\<lambda>e. chained (nexts (m_list s')) (he_next e) j) (live s')) \<le> 1" for j
  proof -
    let ?P = "\<lambda>e. chained (nexts (m_list s)) (he_next e) j"
    have "size (filter_mset ?P (live s')) \<le> size (filter_mset ?P (live s))"
      by (rule size_mset_mono [OF multiset_filter_mono [OF sub]])
    also have "\<dots> \<le> 1"
      using inv by (simp add: chain_inv_def)
    finally show ?thesis by (simp add: l)
  qed
  have d: "\<forall>e \<in># live s'. \<forall>j. chained (nexts (m_list s')) (he_next e) j
          \<longrightarrow> cont (he_data e) (le_data (m_list s' ! j))"
    using inv in_live by (simp add: chain_inv_def l)
  from a b c d show ?thesis
    unfolding chain_inv_def by blast
qed

lemma chain_inv_empty:
  assumes "live s = {#}" "m_list s = []"
  shows "chain_inv cont s"
  using assms by (simp add: chain_inv_def links_back_def nexts_def)

section \<open>The subresource set: the loops return\<close>

lemma unat_and_mask: "unat ((w :: 64 word) AND mask k) = unat w mod 2 ^ k"
proof -
  have "unat (w AND mask k) = unat (take_bit k w)"
    by (simp only: take_bit_eq_mask)
  also have "\<dots> = take_bit k (unat w)"
    by (rule unsigned_take_bit_eq)
  finally show ?thesis
    by (simp only: take_bit_eq_mod)
qed

lemma unat_advanceIndex:
  assumes "k \<le> 64"
  shows "unat (advanceIndex (mask k) idx) = (unat idx + 1) mod 2 ^ k"
proof -
  have d: "(2 :: nat) ^ k dvd 2 ^ 64"
    using assms by (rule le_imp_power_dvd)
  have "unat (advanceIndex (mask k) idx) = ((unat idx + 1) mod 2 ^ 64) mod 2 ^ k"
    by (simp add: advanceIndex_def unat_and_mask unat_word_ariths)
  also have "\<dots> = (unat idx + 1) mod 2 ^ k"
    by (rule mod_mod_cancel [OF d])
  finally show ?thesis .
qed

lemma probe_total_aux:
  assumes k: "k \<le> 64" and len: "length hm = 2 ^ k"
    and i: "i < 2 ^ k" "he_version (hm ! i) \<noteq> v"
  shows "unat idx < 2 ^ k \<Longrightarrow> (unat idx + d) mod 2 ^ k = i \<Longrightarrow>
    \<exists>b r. probe hm v (mask k) key idx = Some (b, r) \<and> r < length hm
      \<and> (if b then he_version (hm ! r) = v \<and> he_key (hm ! r) = key
          else he_version (hm ! r) \<noteq> v)"
proof (induction d arbitrary: idx)
  case 0
  then have "unat idx = i" by simp
  with i len show ?case
    by (subst probe.simps) (simp add: exI [of _ False])
next
  case (Suc d)
  let ?n = "advanceIndex (mask k) idx"
  have u: "unat ?n = (unat idx + 1) mod 2 ^ k"
    by (rule unat_advanceIndex [OF k])
  then have 1: "unat ?n < 2 ^ k" by simp
  have 2: "(unat ?n + d) mod 2 ^ k = i"
    using Suc.prems(2) by (simp add: u mod_add_left_eq)
  from Suc.IH [OF 1 2] Suc.prems(1) len show ?case
    by (subst probe.simps) auto
qed

lemma probe_total:
  assumes k: "k \<le> 64" and len: "length hm = 2 ^ k"
    and i: "i < 2 ^ k" "he_version (hm ! i) \<noteq> v"
    and idx: "unat idx < 2 ^ k"
  shows "\<exists>b r. probe hm v (mask k) key idx = Some (b, r) \<and> r < length hm
      \<and> (if b then he_version (hm ! r) = v \<and> he_key (hm ! r) = key
          else he_version (hm ! r) \<noteq> v)"
proof -
  have "(unat idx + (i + 2 ^ k - unat idx)) mod 2 ^ k = i"
    using idx i(1) by simp
  from probe_total_aux [OF k len i idx this] show ?thesis .
qed

lemma findSlot_total_aux:
  assumes k: "k \<le> 64" and len: "2 ^ k \<le> length hm"
    and i: "i < 2 ^ k" "\<not> v < he_version (hm ! i)"
  shows "unat idx < 2 ^ k \<Longrightarrow> (unat idx + d) mod 2 ^ k = i \<Longrightarrow>
    \<exists>r. findSlot hm v (mask k) idx = Some r \<and> r < 2 ^ k \<and> \<not> v < he_version (hm ! r)"
proof (induction d arbitrary: idx)
  case 0
  then have "unat idx = i" by simp
  with i len show ?case
    by (subst findSlot.simps) simp
next
  case (Suc d)
  let ?n = "advanceIndex (mask k) idx"
  have u: "unat ?n = (unat idx + 1) mod 2 ^ k"
    by (rule unat_advanceIndex [OF k])
  then have 1: "unat ?n < 2 ^ k" by simp
  have 2: "(unat ?n + d) mod 2 ^ k = i"
    using Suc.prems(2) by (simp add: u mod_add_left_eq)
  from Suc.IH [OF 1 2] Suc.prems(1) len show ?case
    by (subst findSlot.simps) auto
qed

lemma findSlot_total:
  assumes k: "k \<le> 64" and len: "2 ^ k \<le> length hm"
    and i: "i < 2 ^ k" "\<not> v < he_version (hm ! i)"
    and idx: "unat idx < 2 ^ k"
  shows "\<exists>r. findSlot hm v (mask k) idx = Some r \<and> r < 2 ^ k \<and> \<not> v < he_version (hm ! r)"
proof -
  have "(unat idx + (i + 2 ^ k - unat idx)) mod 2 ^ k = i"
    using idx i(1) by simp
  from findSlot_total_aux [OF k len i idx this] show ?thesis .
qed

lemma unat_and_mask_less: "unat ((w :: 64 word) AND mask k) < 2 ^ k"
  by (simp add: unat_and_mask)

lemma relocate_total:
  assumes k: "k \<le> 64" and nz: "v + 1 \<noteq> 0"
  shows "2 ^ k \<le> length hm \<Longrightarrow> j < 2 ^ k \<Longrightarrow> he_version (hm ! j) < v \<Longrightarrow>
    size (live_entries v hm) = m \<Longrightarrow> \<exists>hm'. relocate v (mask k) hm entry = Some hm'"
proof (induction m arbitrary: hm entry rule: less_induct)
  case (less m)
  show ?case
  proof (cases "he_version entry = v")
    case False
    then show ?thesis by (subst relocate.simps) simp
  next
    case True
    have nl: "\<not> v < he_version (hm ! j)"
      using less.prems(3) by simp
    from findSlot_total [OF k less.prems(1) less.prems(2) nl unat_and_mask_less]
    obtain r where r: "findSlot hm v (mask k) (computeHash (he_key entry) AND mask k) = Some r"
      "r < 2 ^ k" "\<not> v < he_version (hm ! r)"
      by blast
    let ?hm1 = "hm[r := entry\<lparr>he_version := v + 1\<rparr>]"
    have rl: "r < length hm" using r(2) less.prems(1) by simp
    have "\<exists>hm'. relocate v (mask k) ?hm1 (hm ! r) = Some hm'"
    proof (cases "he_version (hm ! r) = v")
      case False
      then show ?thesis by (subst relocate.simps) simp
    next
      case v: True
      have nv: "v + 1 \<noteq> v"
        using word_less_succ [OF nz] by simp
      have rj: "r \<noteq> j"
        using v less.prems(3) by auto
      have mem: "unversioned (hm ! r) \<in># live_entries v hm"
        using rl v by (auto simp: live_entries_def nth_mem_mset)
      have "size (live_entries v ?hm1) = size (live_entries v hm) - 1"
        using rl v nv mem by (simp add: live_entries_update size_Diff_singleton)
      moreover have "size (live_entries v hm) \<noteq> 0"
        using mem by auto
      ultimately have sm: "size (live_entries v ?hm1) < m"
        using less.prems(4) by simp
      show ?thesis
        by (rule less.IH [OF sm _ less.prems(2) _ refl])
          (use less.prems rj in simp_all)
    qed
    with r(1) True show ?thesis
      by (subst relocate.simps) simp
  qed
qed

lemma relocateAll_total:
  assumes k: "k \<le> 64" and nz: "v \<noteq> 0" "v + 1 \<noteq> 0"
  shows "2 ^ k \<le> length hm \<Longrightarrow> \<forall>i \<in> set idxs. i < 2 ^ k \<Longrightarrow>
    \<exists>hm'. relocateAll v (mask k) idxs hm = Some hm'"
proof (induction idxs arbitrary: hm)
  case Nil
  then show ?case by simp
next
  case (Cons i idxs)
  have i: "i < 2 ^ k" "i < length hm"
    using Cons.prems by auto
  let ?hm0 = "hm[i := (hm ! i)\<lparr>he_version := 0\<rparr>]"
  have z: "he_version (?hm0 ! i) < v"
    using i(2) nz(1) by (simp add: word_greater_zero_iff)
  have l0: "2 ^ k \<le> length ?hm0"
    using Cons.prems(1) by simp
  from relocate_total [OF k nz(2) l0 i(1) z refl]
  obtain hm1 where r: "relocate v (mask k) ?hm0 (hm ! i) = Some hm1"
    by blast
  from relocate_in_flight [OF r] nz(2) have "length hm1 = length hm"
    by simp
  with Cons.IH [of hm1] Cons.prems obtain hm' where "relocateAll v (mask k) idxs hm1 = Some hm'"
    by auto
  with r i(2) show ?case by simp
qed

lemma rank_next:
  assumes "links_back (nexts l)" "idx < NoEntry" "unat idx < length l"
  shows "rank (le_next (l ! unat idx)) < rank idx"
    and "le_next (l ! unat idx) < NoEntry \<longrightarrow> unat (le_next (l ! unat idx)) < length l"
  using assms by (auto simp: rank_def links_back_def nexts_def)

lemma getAccess_loop_total:
  assumes lb: "links_back (nexts l)"
  shows "rank idx = m \<Longrightarrow> idx < NoEntry \<longrightarrow> unat idx < length l \<Longrightarrow>
    \<exists>r. getAccess_loop ops l ea q idx acc = Some r"
proof (induction m arbitrary: idx acc rule: less_induct)
  case (less m)
  show ?case
  proof (cases "idx < NoEntry \<and> acc \<noteq> ea")
    case False
    then show ?thesis by (subst getAccess_loop.simps) auto
  next
    case True
    with less.prems have i: "idx < NoEntry" "unat idx < length l" by auto
    from rank_next [OF lb i] less.prems(1) less.IH
    have "\<exists>r. getAccess_loop ops l ea q (le_next (l ! unat idx)) acc' = Some r" for acc'
      by blast
    with True i show ?thesis by (subst getAccess_loop.simps) simp
  qed
qed

lemma isDirty_loop_total:
  assumes lb: "links_back (nexts l)"
  shows "rank idx = m \<Longrightarrow> idx < NoEntry \<longrightarrow> unat idx < length l \<Longrightarrow>
    \<exists>r. isDirty_loop ops l q idx dirty = Some r"
proof (induction m arbitrary: idx dirty rule: less_induct)
  case (less m)
  show ?case
  proof (cases "idx < NoEntry \<and> \<not> dirty")
    case False
    then show ?thesis by (subst isDirty_loop.simps) auto
  next
    case True
    with less.prems have i: "idx < NoEntry" "unat idx < length l" by auto
    from rank_next [OF lb i] less.prems(1) less.IH
    have "\<exists>r. isDirty_loop ops l q (le_next (l ! unat idx)) dirty' = Some r" for dirty'
      by blast
    with True i show ?thesis by (subst isDirty_loop.simps) simp
  qed
qed

lemma nexts_nth: "j < length l \<Longrightarrow> nexts l ! j = le_next (l ! j)"
  by (simp add: nexts_def)

lemma length_nexts [simp]: "length (nexts l) = length l"
  by (simp add: nexts_def)

lemma mergeListEntry_total:
  assumes lb: "links_back (nexts l)"
  shows "rank idx = m \<Longrightarrow> idx < NoEntry \<Longrightarrow> unat idx < length l \<Longrightarrow>
    \<exists>l' merged. mergeListEntry ops x l idx = Some (l', merged)
      \<and> (if merged
          then \<exists>j. chained (nexts l) idx j
                 \<and> l' = l[j := (l ! j)\<lparr>le_data := op_merge ops (le_data (l ! j)) x\<rparr>]
          else l' = l)"
proof (induction m arbitrary: idx rule: less_induct)
  case (less m)
  note i = less.prems(2,3)
  let ?n = "le_next (l ! unat idx)"
  show ?case
  proof (cases "op_canMerge ops (le_data (l ! unat idx)) x")
    case True
    have "chained (nexts l) idx (unat idx)"
      using i by (simp add: chained.head)
    with True i show ?thesis
      by (subst mergeListEntry.simps) auto
  next
    case False
    show ?thesis
    proof (cases "?n < NoEntry")
      case n: True
      from rank_next [OF lb i] n less.prems(1)
      have "rank ?n < m" "unat ?n < length l" by auto
      from less.IH [OF this(1) refl n this(2)]
      obtain l' merged where r: "mergeListEntry ops x l ?n = Some (l', merged)"
        and p: "if merged
          then \<exists>j. chained (nexts l) ?n j
                 \<and> l' = l[j := (l ! j)\<lparr>le_data := op_merge ops (le_data (l ! j)) x\<rparr>]
          else l' = l"
        by blast
      have st: "chained (nexts l) ?n j \<Longrightarrow> chained (nexts l) idx j" for j
        using chained.step [of idx "nexts l" j] i by (simp add: nexts_nth)
      have "if merged
          then \<exists>j. chained (nexts l) idx j
                 \<and> l' = l[j := (l ! j)\<lparr>le_data := op_merge ops (le_data (l ! j)) x\<rparr>]
          else l' = l"
        using p st by (cases merged) auto
      with r False n i show ?thesis
        by (subst mergeListEntry.simps) simp
    next
      case n: False
      with False i show ?thesis
        by (subst mergeListEntry.simps) (simp add: exI [of _ False])
    qed
  qed
qed

lemma unat_two_power: "k < 64 \<Longrightarrow> unat ((2 :: 64 word) ^ k) = 2 ^ k"
proof -
  assume k: "k < 64"
  have "(2 :: 64 word) ^ k = of_nat (2 ^ k)"
    by simp
  moreover have "(2 :: nat) ^ k < 2 ^ 64"
    using k by (simp only: power_strict_increasing_iff)
  ultimately show ?thesis
    by (simp only: unat_of_nat) simp
qed

lemma mask_succ: "(mask k :: 64 word) + 1 = 2 ^ k"
  by (simp add: mask_eq_exp_minus_1)

lemma unat_7: "7 * unat w < 2 ^ 64 \<Longrightarrow> unat (7 * (w :: 64 word)) = 7 * unat w"
  by (simp add: unat_word_ariths)

lemma unat_10: "10 * unat w < 2 ^ 64 \<Longrightarrow> unat (10 * (w :: 64 word)) = 10 * unat w"
  by (simp add: unat_word_ariths)

lemma unat_double: "2 * unat w < 2 ^ 64 \<Longrightarrow> unat ((w :: 64 word) * 2) = 2 * unat w"
  by (simp add: unat_word_ariths mult.commute)

lemma pow_bound: "(2::nat) ^ k \<le> 64 + 4 * n \<Longrightarrow> n < 2 ^ 31 \<Longrightarrow> k < 34"
proof -
  assume a: "(2::nat) ^ k \<le> 64 + 4 * n" "n < 2 ^ 31"
  then have "(2::nat) ^ k < 2 ^ 34" by simp
  then show "k < 34" by (simp only: power_strict_increasing_iff) 
qed

section \<open>The subresource set: one call keeps the invariant\<close>

lemma succ_nonzero:
  assumes "unat (v :: 64 word) < 2 ^ 64 - 1"
  shows "v + 1 \<noteq> 0"
proof
  assume "v + 1 = 0"
  then have "v = - 1"
    by (simp add: eq_neg_iff_add_eq_0)
  then have "unat v = 2 ^ 64 - 1"
    by (simp add: unsigned_minus_1_eq_mask mask_eq_exp_minus_1)
  with assms show False by simp
qed

lemma unat_succ: "unat (v :: 64 word) < 2 ^ 64 - 1 \<Longrightarrow> unat (v + 1) = unat v + 1"
  using unatSuc [of v] succ_nonzero [of v] by (simp add: add.commute)

lemma grow_step:
  assumes inv: "set_inv cont n s" and n: "n < 2 ^ 31"
  shows "\<exists>s1 k. growHashMapBeforeInsert ops s = Some s1
    \<and> chain_inv cont s1
    \<and> versions_le (m_version s1) (m_hashMap s1)
    \<and> m_version s1 \<noteq> 0
    \<and> unat (m_version s1) \<le> n + 2
    \<and> m_list s1 = m_list s
    \<and> m_used s1 = m_used s
    \<and> table_ok s1 k
    \<and> 2 ^ k \<le> 64 + 4 * (n + 1)
    \<and> size (live s1) \<le> unat (m_used s)
    \<and> 10 * unat (m_used s) < 7 * 2 ^ k"
proof -
  let ?v = "m_version s"
  from inv have ci: "chain_inv cont s" and vl: "versions_le ?v (m_hashMap s)"
    and vz: "?v \<noteq> 0" and vb: "unat ?v \<le> n + 1"
    and tb: "(m_indexMask s = 0 \<and> m_hashMap s = []) \<or> (\<exists>k. table_ok s k \<and> 2 ^ k \<le> 64 + 4 * n)"
    and lv: "size (live s) \<le> unat (m_used s)" and ub: "unat (m_used s) \<le> n"
    and ld: "10 * unat (m_used s) < 7 * length (m_hashMap s) + 10"
    by (simp_all add: set_inv_def)
  have vs: "unat ?v < 2 ^ 64 - 1"
    using vb n by simp
  have v1: "?v + 1 \<noteq> 0"
    by (rule succ_nonzero [OF vs])
  have v1z: "unat (?v + 1) \<le> n + 2"
    using unat_succ [OF vs] vb by simp
  have u10: "unat (10 * m_used s) = 10 * unat (m_used s)"
    using ub n by (intro unat_10) simp
  \<comment> \<open>What a growth to \<open>2 ^ k'\<close> slots gives, whenever relocation returns.\<close>
  have grown: "\<exists>s1. growHashMap ops newSize s = Some s1
      \<and> chain_inv cont s1 \<and> versions_le (m_version s1) (m_hashMap s1)
      \<and> m_version s1 \<noteq> 0 \<and> unat (m_version s1) \<le> n + 2
      \<and> m_list s1 = m_list s \<and> m_used s1 = m_used s \<and> table_ok s1 k'
      \<and> size (live s1) \<le> unat (m_used s)"
    if r: "\<exists>hm'. relocateAll ?v (m_indexMask s) [0 ..< unat (computeSize s)]
             (resize (unat newSize) (defaultEntry ops) (m_hashMap s)) = Some hm'"
      and ns: "newSize = 2 ^ k'" "6 \<le> k'" "k' < 64"
    for newSize k'
  proof -
    from r obtain s1 where g: "growHashMap ops newSize s = Some s1"
      by (auto simp: growHashMap_def)
    note f = growHashMap_live [OF g vl vz v1]
    have sub: "live s1 \<subseteq># live s"
      using f(1) by (simp only: live_def)
    have "chain_inv cont s1"
      by (rule chain_inv_subset [OF ci sub f(4)])
    moreover have "size (live s1) \<le> unat (m_used s)"
      using size_mset_mono [OF sub] lv by simp
    moreover have "table_ok s1 k'"
      using f(6,7) ns by (simp add: table_ok_def unat_two_power mask_eq_exp_minus_1)
    ultimately show ?thesis
      using g f v1 v1z by auto
  qed
  from tb show ?thesis
  proof
    assume e: "m_indexMask s = 0 \<and> m_hashMap s = []"
    then have cs: "computeSize s = 0"
      by (simp add: computeSize_def)
    from e ld have uz: "unat (m_used s) = 0"
      by simp
    have "\<exists>hm'. relocateAll ?v (m_indexMask s) [0 ..< unat (computeSize s)]
             (resize (unat (64 :: 64 word)) (defaultEntry ops) (m_hashMap s)) = Some hm'"
      by (simp add: cs)
    from grown [OF this, of 6] obtain s1 where
      "growHashMap ops 64 s = Some s1" "chain_inv cont s1"
      "versions_le (m_version s1) (m_hashMap s1)" "m_version s1 \<noteq> 0"
      "unat (m_version s1) \<le> n + 2" "m_list s1 = m_list s" "m_used s1 = m_used s"
      "table_ok s1 6" "size (live s1) \<le> unat (m_used s)"
      by auto
    moreover have "growHashMapBeforeInsert ops s = growHashMap ops 64 s"
      by (simp add: growHashMapBeforeInsert_def cs)
    ultimately show ?thesis
      using uz by (intro exI [of _ s1] exI [of _ 6]) simp
  next
    assume "\<exists>k. table_ok s k \<and> 2 ^ k \<le> 64 + 4 * n"
    then obtain k where t: "table_ok s k" and kb: "2 ^ k \<le> 64 + 4 * n"
      by blast
    from pow_bound [OF kb n] have k34: "k < 34" .
    from t have k6: "6 \<le> k" and mk: "m_indexMask s = mask k" and len: "length (m_hashMap s) = 2 ^ k"
      by (simp_all add: table_ok_def)
    have mnz: "m_indexMask s \<noteq> 0"
      using k6 by (simp add: mk)
    have cs: "computeSize s = 2 ^ k"
      using mnz by (simp add: computeSize_def mk mask_succ)
    have ucs: "unat (computeSize s) = 2 ^ k"
      using k34 by (simp add: cs unat_two_power)
    have p34: "(2 :: nat) ^ k < 2 ^ 34"
      using k34 by (simp only: power_strict_increasing_iff)
    have u7: "unat (7 * computeSize s) = 7 * 2 ^ k"
      using p34 unat_7 [of "computeSize s"] by (simp add: ucs)
    have cond: "7 * computeSize s \<le> 10 * m_used s \<longleftrightarrow> 7 * 2 ^ k \<le> 10 * unat (m_used s)"
      by (simp add: word_le_nat_alt u7 u10)
    have p64: "(64 :: nat) \<le> 2 ^ k"
      using power_increasing [OF k6, of "2 :: nat"] by simp
    show ?thesis
    proof (cases "7 * 2 ^ k \<le> 10 * unat (m_used s)")
      case False
      then have "growHashMapBeforeInsert ops s = Some s"
        by (simp add: growHashMapBeforeInsert_def cond)
      with False ci vl vz vb t kb lv show ?thesis
        by (intro exI [of _ s] exI [of _ k]) simp
    next
      case True
      have csz: "computeSize s \<noteq> 0"
        using ucs by (metis power_not_zero unat_eq_zero zero_neq_numeral)
      have ns: "computeSize s * 2 = 2 ^ Suc k"
        by (simp add: cs)
      have go: "growHashMapBeforeInsert ops s = growHashMap ops (2 ^ Suc k) s"
        using True by (simp add: growHashMapBeforeInsert_def cond csz ns del: power_Suc)
      have un: "unat ((2 :: 64 word) ^ Suc k) = 2 ^ Suc k"
        using k34 by (intro unat_two_power) simp
      have "\<exists>hm'. relocateAll ?v (mask k) [0 ..< 2 ^ k]
             (resize (2 ^ Suc k) (defaultEntry ops) (m_hashMap s)) = Some hm'"
        by (rule relocateAll_total [OF _ vz v1]) (use k34 in simp_all)
      then have "\<exists>hm'. relocateAll ?v (m_indexMask s) [0 ..< unat (computeSize s)]
             (resize (unat ((2 :: 64 word) ^ Suc k)) (defaultEntry ops) (m_hashMap s)) = Some hm'"
        by (simp only: mk ucs un)
      from grown [OF this refl, of ] k6 k34 obtain s1 where
        g: "growHashMap ops (2 ^ Suc k) s = Some s1" "chain_inv cont s1"
        "versions_le (m_version s1) (m_hashMap s1)" "m_version s1 \<noteq> 0"
        "unat (m_version s1) \<le> n + 2" "m_list s1 = m_list s" "m_used s1 = m_used s"
        "table_ok s1 (Suc k)" "size (live s1) \<le> unat (m_used s)"
        by auto
      have b1: "(2 :: nat) ^ Suc k \<le> 64 + 4 * (n + 1)"
        using True ub by simp
      have b2: "10 * unat (m_used s) < 7 * 2 ^ Suc k"
        using ld len p64 by simp
      from g go b1 b2 show ?thesis
        by (intro exI [of _ s1] exI [of _ "Suc k"]) simp
    qed
  qed
qed

lemma live_update_live:
  assumes "h < length hm" "he_version (hm ! h) = v" "he_version e' = v"
  shows "live_entries v (hm[h := e']) =
           add_mset (unversioned e') (live_entries v hm - {#unversioned (hm ! h)#})"
  using assms by (simp add: live_entries_update)

lemma live_update_new:
  assumes "h < length hm" "he_version (hm ! h) \<noteq> v" "he_version e' = v"
  shows "live_entries v (hm[h := e']) = add_mset (unversioned e') (live_entries v hm)"
  using assms by (simp add: live_entries_update)

lemma live_member:
  "h < length hm \<Longrightarrow> he_version (hm ! h) = v \<Longrightarrow> unversioned (hm ! h) \<in># live_entries v hm"
  by (auto simp: live_entries_def nth_mem_mset)

lemma unversioned_sel [simp]:
  "he_next (unversioned e) = he_next e" "he_data (unversioned e) = he_data e"
  "he_key (unversioned e) = he_key e"
  by (simp_all add: unversioned_def)

text \<open>The live entry of slot \<open>h\<close> is replaced; the other live entries stay.\<close>

lemma chain_inv_entry:
  assumes ci: "chain_inv cont s"
    and h: "h < length (m_hashMap s)" "he_version (m_hashMap s ! h) = m_version s"
    and s': "m_version s' = m_version s" "m_hashMap s' = (m_hashMap s)[h := e']"
      "he_version e' = m_version s"
    and lb: "links_back (nexts (m_list s'))"
    and same: "\<And>t j. t \<in># live s - {#unversioned (m_hashMap s ! h)#} \<Longrightarrow>
        (chained (nexts (m_list s')) (he_next t) j \<longleftrightarrow> chained (nexts (m_list s)) (he_next t) j)
        \<and> (chained (nexts (m_list s)) (he_next t) j \<longrightarrow> le_data (m_list s' ! j) = le_data (m_list s ! j))"
    and len: "length (m_list s) \<le> length (m_list s')"
    and nx: "he_next e' < NoEntry \<longrightarrow> unat (he_next e') < length (m_list s')"
    and new: "\<And>j. chained (nexts (m_list s')) (he_next e') j \<Longrightarrow>
        cont (he_data e') (le_data (m_list s' ! j))
        \<and> (\<forall>t \<in># live s - {#unversioned (m_hashMap s ! h)#}.
              \<not> chained (nexts (m_list s)) (he_next t) j)"
  shows "chain_inv cont s'"
proof (rule chain_inv_replace [OF ci, where e' = "unversioned e'"
      and ?M0.0 = "live s - {#unversioned (m_hashMap s ! h)#}"])
  show "live s - {#unversioned (m_hashMap s ! h)#} \<subseteq># live s"
    by simp
  show "live s' = add_mset (unversioned e') (live s - {#unversioned (m_hashMap s ! h)#})"
    using h s' by (simp add: live_def live_update_live)
qed (use lb same len nx new in simp_all)

lemma owner_only:
  assumes ci: "chain_inv cont s"
    and h: "h < length (m_hashMap s)" "he_version (m_hashMap s ! h) = m_version s"
    and c: "chained (nexts (m_list s)) (he_next (m_hashMap s ! h)) j"
  shows "\<forall>t \<in># live s - {#unversioned (m_hashMap s ! h)#}.
           \<not> chained (nexts (m_list s)) (he_next t) j"
proof (rule sole_owner)
  show "size (filter_mset (\<lambda>t. chained (nexts (m_list s)) (he_next t) j) (live s)) \<le> 1"
    using ci by (simp add: chain_inv_def)
  show "unversioned (m_hashMap s ! h) \<in># live s"
    using h by (simp add: live_def live_member)
  show "chained (nexts (m_list s)) (he_next (unversioned (m_hashMap s ! h))) j"
    using c by simp
qed

lemma owner_cont:
  assumes ci: "chain_inv cont s"
    and h: "h < length (m_hashMap s)" "he_version (m_hashMap s ! h) = m_version s"
    and c: "chained (nexts (m_list s)) (he_next (m_hashMap s ! h)) j"
  shows "cont (he_data (m_hashMap s ! h)) (le_data (m_list s ! j))"
proof -
  have "unversioned (m_hashMap s ! h) \<in># live s"
    using h by (simp add: live_def live_member)
  with ci c show ?thesis
    unfolding chain_inv_def by fastforce
qed

lemma owner_next:
  assumes ci: "chain_inv cont s"
    and h: "h < length (m_hashMap s)" "he_version (m_hashMap s ! h) = m_version s"
  shows "he_next (m_hashMap s ! h) < NoEntry \<longrightarrow> unat (he_next (m_hashMap s ! h)) < length (m_list s)"
proof -
  have "unversioned (m_hashMap s ! h) \<in># live s"
    using h by (simp add: live_def live_member)
  with ci show ?thesis
    unfolding chain_inv_def by fastforce
qed

lemma others_next:
  assumes ci: "chain_inv cont s" and t: "t \<in># live s - {#e#}"
  shows "he_next t < NoEntry \<longrightarrow> unat (he_next t) < length (m_list s)"
  using ci in_diffD [OF t] unfolding chain_inv_def by blast

lemma nexts_append [simp]: "nexts (l @ [e]) = nexts l @ [le_next e]"
  by (simp add: nexts_def)

lemma nexts_data_update [simp]: "nexts (l[j := (l ! j)\<lparr>le_data := d\<rparr>]) = nexts l"
  by (cases "j < length l") (simp_all add: nexts_def map_update list_update_same_conv list_update_beyond)

lemma inv_none:
  assumes ok: "cont_ok ops cont" and ci: "chain_inv cont s"
    and h: "h < length (m_hashMap s)" "he_version (m_hashMap s ! h) = m_version s"
  shows "chain_inv cont (mergeHead ops x h s)"
proof (rule chain_inv_entry [OF ci h])
  let ?e = "m_hashMap s ! h"
  let ?s' = "mergeHead ops x h s"
  show "m_version ?s' = m_version s" by (simp add: mergeHead_def)
  show "m_hashMap ?s' = (m_hashMap s)[h := ?e\<lparr>he_data := op_merge ops (he_data ?e) x\<rparr>]"
    by (simp add: mergeHead_def)
  show "he_version (?e\<lparr>he_data := op_merge ops (he_data ?e) x\<rparr>) = m_version s"
    using h by simp
  show "links_back (nexts (m_list ?s'))"
    using ci by (simp add: mergeHead_def chain_inv_def)
  show "length (m_list s) \<le> length (m_list ?s')" by (simp add: mergeHead_def)
  show "he_next (?e\<lparr>he_data := op_merge ops (he_data ?e) x\<rparr>) < NoEntry \<longrightarrow>
      unat (he_next (?e\<lparr>he_data := op_merge ops (he_data ?e) x\<rparr>)) < length (m_list ?s')"
    using owner_next [OF ci h] by (simp add: mergeHead_def)
  show "(chained (nexts (m_list ?s')) (he_next t) j \<longleftrightarrow> chained (nexts (m_list s)) (he_next t) j)
        \<and> (chained (nexts (m_list s)) (he_next t) j \<longrightarrow> le_data (m_list ?s' ! j) = le_data (m_list s ! j))"
    for t j
    by (simp add: mergeHead_def)
  show "cont (he_data (?e\<lparr>he_data := op_merge ops (he_data ?e) x\<rparr>)) (le_data (m_list ?s' ! j))
        \<and> (\<forall>t \<in># live s - {#unversioned ?e#}. \<not> chained (nexts (m_list s)) (he_next t) j)"
    if "chained (nexts (m_list ?s')) (he_next (?e\<lparr>he_data := op_merge ops (he_data ?e) x\<rparr>)) j" for j
  proof -
    from that have c: "chained (nexts (m_list s)) (he_next ?e) j"
      by (simp add: mergeHead_def)
    from owner_cont [OF ci h c] ok have "cont (op_merge ops (he_data ?e) x) (le_data (m_list s ! j))"
      by (simp add: cont_ok_def)
    with owner_only [OF ci h c] show ?thesis
      by (simp add: mergeHead_def)
  qed
qed

lemma inv_inplace:
  assumes ok: "cont_ok ops cont" and ci: "chain_inv cont s"
    and h: "h < length (m_hashMap s)" "he_version (m_hashMap s ! h) = m_version s"
    and j0: "chained (nexts (m_list s)) (he_next (m_hashMap s ! h)) j0"
  shows "chain_inv cont (mergeHead ops x h
           (s\<lparr>m_list := (m_list s)[j0 := (m_list s ! j0)\<lparr>le_data := op_merge ops (le_data (m_list s ! j0)) x\<rparr>]\<rparr>))"
    (is "chain_inv cont ?s'")
proof (rule chain_inv_entry [OF ci h])
  let ?e = "m_hashMap s ! h"
  let ?e' = "?e\<lparr>he_data := op_merge ops (he_data ?e) x\<rparr>"
  let ?l = "m_list s"
  have jl: "j0 < length ?l"
    using chainedD [OF j0] by simp
  show "m_version ?s' = m_version s" by (simp add: mergeHead_def)
  show "m_hashMap ?s' = (m_hashMap s)[h := ?e']"
    by (simp add: mergeHead_def)
  show "he_version ?e' = m_version s"
    using h by simp
  show "links_back (nexts (m_list ?s'))"
    using ci by (simp add: mergeHead_def chain_inv_def)
  show "length (m_list s) \<le> length (m_list ?s')" by (simp add: mergeHead_def)
  show "he_next ?e' < NoEntry \<longrightarrow> unat (he_next ?e') < length (m_list ?s')"
    using owner_next [OF ci h] by (simp add: mergeHead_def)
  show "(chained (nexts (m_list ?s')) (he_next t) j \<longleftrightarrow> chained (nexts (m_list s)) (he_next t) j)
        \<and> (chained (nexts (m_list s)) (he_next t) j \<longrightarrow> le_data (m_list ?s' ! j) = le_data (m_list s ! j))"
    if t: "t \<in># live s - {#unversioned ?e#}" for t j
  proof -
    have "j \<noteq> j0" if "chained (nexts (m_list s)) (he_next t) j"
      using owner_only [OF ci h j0] t that by auto
    then show ?thesis
      by (auto simp: mergeHead_def)
  qed
  show "cont (he_data ?e') (le_data (m_list ?s' ! j))
        \<and> (\<forall>t \<in># live s - {#unversioned ?e#}. \<not> chained (nexts (m_list s)) (he_next t) j)"
    if "chained (nexts (m_list ?s')) (he_next ?e') j" for j
  proof -
    from that have c: "chained (nexts (m_list s)) (he_next ?e) j"
      by (simp add: mergeHead_def)
    have "cont (op_merge ops (he_data ?e) x) (le_data (m_list ?s' ! j))"
    proof (cases "j = j0")
      case True
      from owner_cont [OF ci h j0] ok
      have "cont (op_merge ops (he_data ?e) x) (op_merge ops (le_data (?l ! j0)) x)"
        by (simp add: cont_ok_def)
      with True jl show ?thesis by (simp add: mergeHead_def)
    next
      case False
      from owner_cont [OF ci h c] ok have "cont (op_merge ops (he_data ?e) x) (le_data (?l ! j))"
        by (simp add: cont_ok_def)
      with False show ?thesis by (simp add: mergeHead_def)
    qed
    with owner_only [OF ci h c] show ?thesis
      by simp
  qed
qed

lemma others_chain_append:
  assumes ci: "chain_inv cont s" and t: "t \<in># live s - {#e#}"
  shows "(chained (nexts (m_list s) @ ys) (he_next t) j \<longleftrightarrow> chained (nexts (m_list s)) (he_next t) j)
    \<and> (chained (nexts (m_list s)) (he_next t) j \<longrightarrow> (m_list s @ zs) ! j = m_list s ! j)"
proof -
  have lb: "links_back (nexts (m_list s))"
    using ci by (simp add: chain_inv_def)
  have 1: "chained (nexts (m_list s)) (he_next t) j"
    if c: "chained (nexts (m_list s) @ ys) (he_next t) j"
  proof -
    from c have "he_next t < NoEntry" by (auto dest: chainedD)
    with others_next [OF ci t] have "unat (he_next t) < length (nexts (m_list s))" by simp
    from chained_append2 [OF lb c this] show ?thesis .
  qed
  have 2: "(m_list s @ zs) ! j = m_list s ! j" if "chained (nexts (m_list s)) (he_next t) j"
    using chainedD [OF that] by (simp add: nth_append)
  from 1 2 chained_append1 show ?thesis by blast
qed

lemma inv_push1:
  assumes ok: "cont_ok ops cont" and ci: "chain_inv cont s"
    and h: "h < length (m_hashMap s)" "he_version (m_hashMap s ! h) = m_version s"
    and n: "length (m_list s) < 2 ^ 32 - 1"
  shows "chain_inv cont (mergeHead ops x h (insertListEntry x h s))"
    (is "chain_inv cont ?s'")
proof (rule chain_inv_entry [OF ci h])
  let ?e = "m_hashMap s ! h"
  let ?l = "m_list s"
  let ?L = "length ?l"
  let ?e' = "?e\<lparr>he_next := of_nat ?L, he_data := op_merge ops (he_data ?e) x\<rparr>"
  have lb: "links_back (nexts ?l)"
    using ci by (simp add: chain_inv_def)
  have ls: "m_list ?s' = ?l @ [\<lparr>le_data = x, le_next = he_next ?e\<rparr>]"
    by (simp add: mergeHead_def insertListEntry_def)
  have nn: "length (nexts ?l) < 2 ^ 32 - 1"
    using n by simp
  note u = unat_index [OF n]
  note on = owner_next [OF ci h]
  show "m_version ?s' = m_version s" by (simp add: mergeHead_def insertListEntry_def)
  show "m_hashMap ?s' = (m_hashMap s)[h := ?e']"
    using h(1) by (simp add: mergeHead_def insertListEntry_def)
  show "he_version ?e' = m_version s"
    using h by simp
  show "links_back (nexts (m_list ?s'))"
    unfolding ls nexts_append using links_back_append [OF lb] on by simp
  show "length (m_list s) \<le> length (m_list ?s')" by (simp add: ls)
  show "he_next ?e' < NoEntry \<longrightarrow> unat (he_next ?e') < length (m_list ?s')"
    using u by (simp add: ls)
  show "(chained (nexts (m_list ?s')) (he_next t) j \<longleftrightarrow> chained (nexts (m_list s)) (he_next t) j)
        \<and> (chained (nexts (m_list s)) (he_next t) j \<longrightarrow> le_data (m_list ?s' ! j) = le_data (m_list s ! j))"
    if t: "t \<in># live s - {#unversioned ?e#}" for t j
    using others_chain_append [OF ci t, of "[he_next ?e]" j "[\<lparr>le_data = x, le_next = he_next ?e\<rparr>]"]
    by (simp add: ls)
  show "cont (he_data ?e') (le_data (m_list ?s' ! j))
        \<and> (\<forall>t \<in># live s - {#unversioned ?e#}. \<not> chained (nexts (m_list s)) (he_next t) j)"
    if "chained (nexts (m_list ?s')) (he_next ?e') j" for j
  proof -
    from that have "chained (nexts ?l @ [he_next ?e]) (of_nat (length (nexts ?l))) j"
      by (simp add: ls)
    with chained_new [OF lb nn, of "he_next ?e" j] on
    consider "j = ?L" | "chained (nexts ?l) (he_next ?e) j"
      by auto
    then show ?thesis
    proof cases
      case 1
      have "\<not> chained (nexts ?l) p ?L" for p
        by (auto dest: chainedD)
      with 1 ok show ?thesis
        by (simp add: ls cont_ok_def)
    next
      case 2
      from chainedD [OF 2] have jl: "j < ?L" by simp
      from owner_cont [OF ci h 2] ok have "cont (op_merge ops (he_data ?e) x) (le_data (?l ! j))"
        by (simp add: cont_ok_def)
      with owner_only [OF ci h 2] jl show ?thesis
        by (simp add: ls nth_append)
    qed
  qed
qed

lemma inv_push2:
  assumes ok: "cont_ok ops cont" and ci: "chain_inv cont s"
    and h: "h < length (m_hashMap s)" "he_version (m_hashMap s ! h) = m_version s"
    and nl: "\<not> he_next (m_hashMap s ! h) < NoEntry"
    and n: "Suc (length (m_list s)) < 2 ^ 32 - 1"
  shows "chain_inv cont (mergeHead ops x h
           (insertListEntry x h (insertListEntry (he_data (m_hashMap s ! h)) h s)))"
    (is "chain_inv cont ?s'")
proof (rule chain_inv_entry [OF ci h])
  let ?e = "m_hashMap s ! h"
  let ?l = "m_list s"
  let ?L = "length ?l"
  let ?e' = "?e\<lparr>he_next := of_nat (Suc ?L), he_data := op_merge ops (he_data ?e) x\<rparr>"
  let ?a = "\<lparr>le_data = he_data ?e, le_next = he_next ?e\<rparr>"
  let ?b = "\<lparr>le_data = x, le_next = of_nat ?L\<rparr>"
  let ?nx1 = "nexts ?l @ [he_next ?e]"
  have lb: "links_back (nexts ?l)"
    using ci by (simp add: chain_inv_def)
  have ls: "m_list ?s' = ?l @ [?a, ?b]"
    using h(1) by (simp add: mergeHead_def insertListEntry_def)
  have n0: "?L < 2 ^ 32 - 1" using n by simp
  have nn0: "length (nexts ?l) < 2 ^ 32 - 1" using n by simp
  have nn1: "length ?nx1 < 2 ^ 32 - 1" using n by simp
  note u0 = unat_index [OF n0]
  note u1 = unat_index [OF n]
  have lb1: "links_back ?nx1"
    using links_back_append [OF lb] nl by simp
  have lb2: "links_back (?nx1 @ [of_nat ?L])"
    using links_back_append [OF lb1, of "of_nat ?L"] u0 by simp
  have nxs: "nexts (m_list ?s') = ?nx1 @ [of_nat ?L]"
    by (simp add: ls nexts_def)
  show "m_version ?s' = m_version s" by (simp add: mergeHead_def insertListEntry_def)
  show "m_hashMap ?s' = (m_hashMap s)[h := ?e']"
    using h(1) by (simp add: mergeHead_def insertListEntry_def)
  show "he_version ?e' = m_version s"
    using h by simp
  show "links_back (nexts (m_list ?s'))"
    unfolding nxs by (rule lb2)
  show "length (m_list s) \<le> length (m_list ?s')" by (simp add: ls)
  show "he_next ?e' < NoEntry \<longrightarrow> unat (he_next ?e') < length (m_list ?s')"
    using u1 by (simp add: ls)
  show "(chained (nexts (m_list ?s')) (he_next t) j \<longleftrightarrow> chained (nexts (m_list s)) (he_next t) j)
        \<and> (chained (nexts (m_list s)) (he_next t) j \<longrightarrow> le_data (m_list ?s' ! j) = le_data (m_list s ! j))"
    if t: "t \<in># live s - {#unversioned ?e#}" for t j
    using others_chain_append [OF ci t, of "[he_next ?e, of_nat ?L]" j "[?a, ?b]"]
    by (simp add: ls nexts_def)
  show "cont (he_data ?e') (le_data (m_list ?s' ! j))
        \<and> (\<forall>t \<in># live s - {#unversioned ?e#}. \<not> chained (nexts (m_list s)) (he_next t) j)"
    if "chained (nexts (m_list ?s')) (he_next ?e') j" for j
  proof -
    from that have c: "chained (?nx1 @ [of_nat ?L]) (of_nat (length ?nx1)) j"
      by (simp add: nxs)
    have "\<not> chained (nexts ?l) (he_next ?e) j"
      using nl by (auto dest: chainedD)
    with chained_new [OF lb nn0, of "he_next ?e" j] nl
    have c0: "chained ?nx1 (of_nat ?L) j \<longleftrightarrow> j = ?L"
      by simp
    from c chained_new [OF lb1 nn1, of "of_nat ?L" j] u0 c0
    have jc: "j = Suc ?L \<or> j = ?L"
      by auto
    from ok have 1: "cont (op_merge ops (he_data ?e) x) x"
      and 2: "cont (op_merge ops (he_data ?e) x) (he_data ?e)"
      unfolding cont_ok_def by blast+
    from jc 1 2 have "cont (op_merge ops (he_data ?e) x) (le_data (m_list ?s' ! j))"
      by (auto simp: ls nth_append)
    moreover have "\<not> chained (nexts ?l) p j" for p
      using jc by (auto dest: chainedD)
    ultimately show ?thesis
      by simp
  qed
qed

lemma grow_mid:
  assumes inv: "set_inv cont n s" and n: "n < 2 ^ 31"
  shows "\<exists>s1 k. growHashMapBeforeInsert ops s = Some s1 \<and> mid_inv cont n k s1"
proof -
  from grow_step [OF inv n, of ops] obtain s1 k where
    "growHashMapBeforeInsert ops s = Some s1" "chain_inv cont s1"
    "versions_le (m_version s1) (m_hashMap s1)" "m_version s1 \<noteq> 0"
    "unat (m_version s1) \<le> n + 2" "m_list s1 = m_list s" "m_used s1 = m_used s"
    "table_ok s1 k" "2 ^ k \<le> 64 + 4 * (n + 1)" "size (live s1) \<le> unat (m_used s)"
    "10 * unat (m_used s) < 7 * 2 ^ k"
    by blast
  moreover from inv have "length (m_list s) \<le> 2 * n" "unat (m_used s) \<le> n"
    by (simp_all add: set_inv_def)
  ultimately show ?thesis
    unfolding mid_inv_def by (intro exI [of _ s1] exI [of _ k]) simp
qed

lemma mid_to_inv:
  assumes mid: "mid_inv cont n k s1"
    and ci: "chain_inv cont s'"
    and v: "m_version s' = m_version s1" "m_indexMask s' = m_indexMask s1"
    and vl: "versions_le (m_version s') (m_hashMap s')"
    and len: "length (m_hashMap s') = length (m_hashMap s1)"
    and ll: "length (m_list s') \<le> length (m_list s1) + 2"
    and lv: "size (live s') \<le> unat (m_used s')"
    and us: "unat (m_used s') \<le> Suc n"
    and ld: "10 * unat (m_used s') < 7 * 2 ^ k + 10"
  shows "set_inv cont (Suc n) s'"
proof -
  from mid have t: "table_ok s1 k" and kb: "2 ^ k \<le> 64 + 4 * (n + 1)"
    and vz: "m_version s1 \<noteq> 0" and vb: "unat (m_version s1) \<le> n + 2"
    and l1: "length (m_list s1) \<le> 2 * n"
    by (simp_all add: mid_inv_def)
  have "table_ok s' k"
    using t v len by (simp add: table_ok_def)
  moreover have "length (m_hashMap s') = 2 ^ k"
    using t len by (simp add: table_ok_def)
  ultimately show ?thesis
    unfolding set_inv_def using ci v vl ll lv us ld kb vz vb l1
    by (intro conjI disjI2 exI [of _ k]) simp_all
qed

lemma exists_vacant:
  assumes "size (live_entries v hm) < length hm"
  shows "\<exists>i < length hm. he_version (hm ! i) \<noteq> v"
proof (rule ccontr)
  assume "\<not> ?thesis"
  then have "\<forall>e \<in> set hm. he_version e = v"
    by (auto simp: in_set_conv_nth)
  then have "filter (\<lambda>e. he_version e = v) hm = hm"
    by simp
  then have "size (live_entries v hm) = length hm"
    by (simp add: live_entries_def flip: mset_filter)
  with assms show False by simp
qed

lemma size_live_update:
  assumes "h < length hm" "he_version (hm ! h) = v" "he_version e' = v"
  shows "size (live_entries v (hm[h := e'])) = size (live_entries v hm)"
proof -
  have m: "unversioned (hm ! h) \<in># live_entries v hm"
    by (rule live_member [OF assms(1,2)])
  then have "live_entries v hm \<noteq> {#}"
    by auto
  then have "0 < size (live_entries v hm)"
    by (simp add: nonempty_has_size)
  with m show ?thesis
    by (simp add: live_update_live [OF assms] size_Diff_singleton)
qed

lemma probe_step:
  assumes mid: "mid_inv cont n k s1" and n: "Suc n < 2 ^ 31"
  shows "\<exists>b r. probe (m_hashMap s1) (m_version s1) (m_indexMask s1) key (computeIndex s1 key) = Some (b, r)
    \<and> r < length (m_hashMap s1)
    \<and> (if b then he_version (m_hashMap s1 ! r) = m_version s1 \<and> he_key (m_hashMap s1 ! r) = key
        else he_version (m_hashMap s1 ! r) \<noteq> m_version s1)"
proof -
  from mid have t: "table_ok s1 k" and kb: "2 ^ k \<le> 64 + 4 * (n + 1)"
    and lv: "size (live s1) \<le> unat (m_used s1)" and ld: "10 * unat (m_used s1) < 7 * 2 ^ k"
    by (simp_all add: mid_inv_def)
  from t have mk: "m_indexMask s1 = mask k" and len: "length (m_hashMap s1) = 2 ^ k"
    by (simp_all add: table_ok_def)
  have "k < 34"
    by (rule pow_bound [OF kb]) (use n in simp)
  then have k: "k \<le> 64" by simp
  have "size (live_entries (m_version s1) (m_hashMap s1)) < length (m_hashMap s1)"
    using lv ld by (simp add: live_def len)
  from exists_vacant [OF this] obtain i where i: "i < 2 ^ k"
    "he_version (m_hashMap s1 ! i) \<noteq> m_version s1"
    by (auto simp: len)
  have c: "unat (computeIndex s1 key) < 2 ^ k"
    by (simp add: computeIndex_def mk unat_and_mask_less)
  from probe_total [OF k len i c, of key] show ?thesis
    by (simp add: mk)
qed

lemma insert_slice_alt:
  "insert_slice ops res other s0 =
     Option.bind (insertHashEntry ops res other s0) (\<lambda>(s, hashEntry).
       case hashEntry of
         None \<Rightarrow> Some s
       | Some h \<Rightarrow> Option.bind (listStep ops other h s) (\<lambda>s'. Some (mergeHead ops other h s')))"
  unfolding insert_slice_def listStep_def mergeHead_def by (rule refl)

lemma finish:
  assumes mid: "mid_inv cont n k s1"
    and h: "h < length (m_hashMap s1)" "he_version (m_hashMap s1 ! h) = m_version s1"
    and ci: "chain_inv cont s'"
    and hm: "m_hashMap s' = (m_hashMap s1)[h := e']" "he_version e' = m_version s1"
    and fr: "m_version s' = m_version s1" "m_indexMask s' = m_indexMask s1"
      "m_used s' = m_used s1" "length (m_list s') \<le> length (m_list s1) + 2"
  shows "set_inv cont (Suc n) s'"
proof (rule mid_to_inv [OF mid ci fr(1,2)])
  from mid have vl: "versions_le (m_version s1) (m_hashMap s1)"
    and lv: "size (live s1) \<le> unat (m_used s1)" and ub: "unat (m_used s1) \<le> n"
    and ld: "10 * unat (m_used s1) < 7 * 2 ^ k"
    by (simp_all add: mid_inv_def)
  show "versions_le (m_version s') (m_hashMap s')"
    using versions_le_update [OF vl, of e' h] hm fr by simp
  show "length (m_hashMap s') = length (m_hashMap s1)"
    by (simp add: hm)
  show "length (m_list s') \<le> length (m_list s1) + 2"
    by (rule fr(4))
  show "size (live s') \<le> unat (m_used s')"
    using size_live_update [OF h hm(2)] lv by (simp add: live_def hm fr)
  show "unat (m_used s') \<le> Suc n"
    using ub by (simp add: fr)
  show "10 * unat (m_used s') < 7 * 2 ^ k + 10"
    using ld by (simp add: fr)
qed

lemma listStep_inv:
  assumes ok: "cont_ok ops cont" and mid: "mid_inv cont n k s1" and n: "Suc n < 2 ^ 31"
    and h: "h < length (m_hashMap s1)" "he_version (m_hashMap s1 ! h) = m_version s1"
  shows "\<exists>s2. listStep ops x h s1 = Some s2 \<and> set_inv cont (Suc n) (mergeHead ops x h s2)"
proof -
  let ?e = "m_hashMap s1 ! h"
  let ?l = "m_list s1"
  from mid have ci: "chain_inv cont s1" and ll: "length ?l \<le> 2 * n"
    by (simp_all add: mid_inv_def)
  have lb: "links_back (nexts ?l)"
    using ci by (simp add: chain_inv_def)
  have n1: "length ?l < 2 ^ 32 - 1" and n2: "Suc (length ?l) < 2 ^ 32 - 1"
    using ll n by simp_all
  have push1: "set_inv cont (Suc n) (mergeHead ops x h (insertListEntry x h s1))"
    by (rule finish [OF mid h inv_push1 [OF ok ci h n1],
          where e' = "?e\<lparr>he_next := of_nat (length ?l), he_data := op_merge ops (he_data ?e) x\<rparr>"])
      (use h in \<open>simp_all add: mergeHead_def insertListEntry_def\<close>)
  have push2: "set_inv cont (Suc n) (mergeHead ops x h
      (insertListEntry x h (insertListEntry (he_data ?e) h s1)))"
    if "\<not> he_next ?e < NoEntry"
    by (rule finish [OF mid h inv_push2 [OF ok ci h that n2],
          where e' = "?e\<lparr>he_next := of_nat (Suc (length ?l)), he_data := op_merge ops (he_data ?e) x\<rparr>"])
      (use h in \<open>simp_all add: mergeHead_def insertListEntry_def\<close>)
  have none: "set_inv cont (Suc n) (mergeHead ops x h s1)"
    by (rule finish [OF mid h inv_none [OF ok ci h],
          where e' = "?e\<lparr>he_data := op_merge ops (he_data ?e) x\<rparr>"])
      (use h in \<open>simp_all add: mergeHead_def\<close>)
  have inplace: "set_inv cont (Suc n) (mergeHead ops x h
      (s1\<lparr>m_list := ?l[j0 := (?l ! j0)\<lparr>le_data := op_merge ops (le_data (?l ! j0)) x\<rparr>]\<rparr>))"
    if "chained (nexts ?l) (he_next ?e) j0" for j0
    by (rule finish [OF mid h inv_inplace [OF ok ci h that],
          where e' = "?e\<lparr>he_data := op_merge ops (he_data ?e) x\<rparr>"])
      (use h in \<open>simp_all add: mergeHead_def\<close>)
  show ?thesis
  proof (cases "he_next ?e < NoEntry")
    case False
    with push2 none show ?thesis
      by (simp add: listStep_def)
  next
    case True
    show ?thesis
    proof (cases "op_isImage ops")
      case False
      with True push1 show ?thesis
        by (simp add: listStep_def)
    next
      case img: True
      from owner_next [OF ci h] True have "unat (he_next ?e) < length ?l"
        by simp
      from mergeListEntry_total [OF lb refl True this, of ops x]
      obtain l' merged where m: "mergeListEntry ops x ?l (he_next ?e) = Some (l', merged)"
        and p: "if merged
          then \<exists>j. chained (nexts ?l) (he_next ?e) j
                 \<and> l' = ?l[j := (?l ! j)\<lparr>le_data := op_merge ops (le_data (?l ! j)) x\<rparr>]
          else l' = ?l"
        by blast
      show ?thesis
      proof (cases merged)
        case False
        with True img m push1 show ?thesis
          by (simp add: listStep_def)
      next
        case mg: True
        with p obtain j0 where "chained (nexts ?l) (he_next ?e) j0"
          "l' = ?l[j0 := (?l ! j0)\<lparr>le_data := op_merge ops (le_data (?l ! j0)) x\<rparr>]"
          by auto
        with inplace [of j0] True img m mg show ?thesis
          by (simp add: listStep_def)
      qed
    qed
  qed
qed

lemma insert_new_inv:
  assumes mid: "mid_inv cont n k s1" and n: "Suc n < 2 ^ 31"
    and r: "r < length (m_hashMap s1)" "he_version (m_hashMap s1 ! r) \<noteq> m_version s1"
  shows "set_inv cont (Suc n)
           (s1\<lparr>m_hashMap := (m_hashMap s1)
                 [r := \<lparr>he_version = m_version s1, he_key = key, he_data = x, he_next = NoEntry\<rparr>],
               m_used := m_used s1 + 1\<rparr>)"
    (is "set_inv cont (Suc n) ?s'")
proof -
  let ?new = "\<lparr>he_version = m_version s1, he_key = key, he_data = x, he_next = NoEntry\<rparr>"
  from mid have ci: "chain_inv cont s1" and vl: "versions_le (m_version s1) (m_hashMap s1)"
    and lv: "size (live s1) \<le> unat (m_used s1)" and ub: "unat (m_used s1) \<le> n"
    and ld: "10 * unat (m_used s1) < 7 * 2 ^ k"
    by (simp_all add: mid_inv_def)
  have lv': "live ?s' = add_mset (unversioned ?new) (live s1)"
    using r by (simp add: live_def live_update_new)
  have us: "unat (m_used s1 + 1) = unat (m_used s1) + 1"
    by (rule unat_succ) (use ub n in simp)
  have ci': "chain_inv cont ?s'"
  proof (rule chain_inv_replace [OF ci _ lv'])
    show "live s1 \<subseteq># live s1" by simp
    show "links_back (nexts (m_list ?s'))"
      using ci by (simp add: chain_inv_def)
    show "\<And>j. chained (nexts (m_list ?s')) (he_next (unversioned ?new)) j \<Longrightarrow>
        cont (he_data (unversioned ?new)) (le_data (m_list ?s' ! j))
        \<and> (\<forall>t \<in># live s1. \<not> chained (nexts (m_list s1)) (he_next t) j)"
      by (auto dest: chainedD)
  qed simp_all
  show ?thesis
  proof (rule mid_to_inv [OF mid ci'])
    show "versions_le (m_version ?s') (m_hashMap ?s')"
      using versions_le_update [OF vl, of ?new r] by simp
    show "size (live ?s') \<le> unat (m_used ?s')"
      using lv by (simp add: lv' us)
    show "unat (m_used ?s') \<le> Suc n"
      using ub by (simp add: us)
    show "10 * unat (m_used ?s') < 7 * 2 ^ k + 10"
      using ld by (simp add: us)
  qed simp_all
qed

lemma insert_step:
  assumes ok: "cont_ok ops cont" and inv: "set_inv cont n s" and n: "Suc n < 2 ^ 31"
  shows "\<exists>s'. insert_slice ops key x s = Some s' \<and> set_inv cont (Suc n) s'"
proof -
  have n': "n < 2 ^ 31" using n by simp
  from grow_mid [OF inv n', of ops] obtain s1 k where
    g: "growHashMapBeforeInsert ops s = Some s1" and mid: "mid_inv cont n k s1"
    by blast
  from probe_step [OF mid n, of key] obtain b r where
    p: "probe (m_hashMap s1) (m_version s1) (m_indexMask s1) key (computeIndex s1 key) = Some (b, r)"
    and r: "r < length (m_hashMap s1)"
    and q: "if b then he_version (m_hashMap s1 ! r) = m_version s1 \<and> he_key (m_hashMap s1 ! r) = key
        else he_version (m_hashMap s1 ! r) \<noteq> m_version s1"
    by blast
  show ?thesis
  proof (cases b)
    case False
    with q have "he_version (m_hashMap s1 ! r) \<noteq> m_version s1" by simp
    from insert_new_inv [OF mid n r this, of key x] False g p show ?thesis
      by (simp add: insert_slice_alt insertHashEntry_def)
  next
    case True
    with q have "he_version (m_hashMap s1 ! r) = m_version s1" by simp
    from listStep_inv [OF ok mid n r this, of x] True g p show ?thesis
      by (auto simp: insert_slice_alt insertHashEntry_def)
  qed
qed

lemma buffer_cont_ok: "cont_ok buffer_ops buffer_contains"
  unfolding cont_ok_def
  by (auto simp: buffer_ops_def buffer_contains_def buffer_merge_def min_le_iff_disj le_max_iff_disj)

lemma or_eq_iff_bits: "(a :: 32 word) OR x = a \<longleftrightarrow> (\<forall>n. bit x n \<longrightarrow> bit a n)"
proof
  assume h: "a OR x = a"
  show "\<forall>n. bit x n \<longrightarrow> bit a n"
  proof (intro allI impI)
    fix n assume "bit x n"
    then have "bit (a OR x) n" by (simp add: bit_or_iff)
    with h show "bit a n" by simp
  qed
next
  assume "\<forall>n. bit x n \<longrightarrow> bit a n"
  then show "a OR x = a"
    by - (rule bit_word_eqI, auto simp: bit_or_iff)
qed

lemma nonzero_iff_bits: "(a :: 32 word) \<noteq> 0 \<longleftrightarrow> (\<exists>n. bit a n)"
proof
  assume "a \<noteq> 0"
  show "\<exists>n. bit a n"
  proof (rule ccontr)
    assume "\<not> (\<exists>n. bit a n)"
    then have "a = 0" by - (rule bit_word_eqI, simp)
    with \<open>a \<noteq> 0\<close> show False by simp
  qed
next
  assume "\<exists>n. bit a n"
  then show "a \<noteq> 0" by auto
qed

lemma and_nonzero_iff_bits: "(a :: 32 word) AND x \<noteq> 0 \<longleftrightarrow> (\<exists>n. bit a n \<and> bit x n)"
  by (simp add: nonzero_iff_bits bit_and_iff)

lemma image_cont_ok: "cont_ok image_ops image_contains"
  unfolding cont_ok_def
  by (auto simp: image_ops_def image_contains_def image_merge_def min_le_iff_disj le_max_iff_disj
      or_eq_iff_bits bit_or_iff)

lemma buffer_contains_overlaps:
  assumes "buffer_contains a x"
  shows "buffer_overlaps x y \<longrightarrow> buffer_overlaps a y"
    and "buffer_overlaps x x \<longrightarrow> buffer_overlaps a x"
    and "buffer_getAccess x \<subseteq> buffer_getAccess a"
  using assms by (auto simp: buffer_contains_def buffer_overlaps_def buffer_getAccess_def)

lemma image_contains_overlaps:
  assumes "image_contains a x"
  shows "image_overlaps x y \<longrightarrow> image_overlaps a y"
    and "image_overlaps x x \<longrightarrow> image_overlaps a x"
    and "image_getAccess x \<subseteq> image_getAccess a"
  using assms
  by (auto simp: image_contains_def image_overlaps_def image_getAccess_def
      or_eq_iff_bits nonzero_iff_bits bit_and_iff)

section \<open>The subresource set: every reachable state\<close>

lemma set_inv_mono: "set_inv cont n s \<Longrightarrow> set_inv cont (Suc n) s"
  unfolding set_inv_def by (elim conjE disjE exE; intro conjI; (simp; fail)?) auto

lemma init_inv: "set_inv cont 0 init_set"
  by (simp add: set_inv_def init_set_def chain_inv_empty live_def live_entries_def versions_le_def)

lemma findHashEntry_total:
  assumes inv: "set_inv cont n s" and n: "n < 2 ^ 31"
  shows "\<exists>r. findHashEntry s key = Some r
    \<and> (\<forall>i. r = Some i \<longrightarrow> i < length (m_hashMap s) \<and> he_version (m_hashMap s ! i) = m_version s)"
proof (cases "m_used s = 0")
  case True
  then show ?thesis by (simp add: findHashEntry_def)
next
  case False
  then have u: "0 < unat (m_used s)"
    by (simp add: unat_gt_0)
  from inv have tb: "(m_indexMask s = 0 \<and> m_hashMap s = []) \<or> (\<exists>k. table_ok s k \<and> 2 ^ k \<le> 64 + 4 * n)"
    and lv: "size (live s) \<le> unat (m_used s)"
    and ld: "10 * unat (m_used s) < 7 * length (m_hashMap s) + 10"
    by (simp_all add: set_inv_def)
  from ld u have "m_hashMap s \<noteq> []" by auto
  with tb obtain k where t: "table_ok s k" and kb: "2 ^ k \<le> 64 + 4 * n"
    by blast
  from t have k6: "6 \<le> k" and mk: "m_indexMask s = mask k" and len: "length (m_hashMap s) = 2 ^ k"
    by (simp_all add: table_ok_def)
  have "k < 34" by (rule pow_bound [OF kb n])
  then have k: "k \<le> 64" by simp
  have p64: "(64 :: nat) \<le> 2 ^ k"
    using power_increasing [OF k6, of "2 :: nat"] by simp
  have "size (live_entries (m_version s) (m_hashMap s)) < length (m_hashMap s)"
    using lv ld p64 by (simp add: live_def len)
  from exists_vacant [OF this] obtain i where i: "i < 2 ^ k"
    "he_version (m_hashMap s ! i) \<noteq> m_version s"
    by (auto simp: len)
  have c: "unat (computeIndex s key) < 2 ^ k"
    by (simp add: computeIndex_def mk unat_and_mask_less)
  from probe_total [OF k len i c, of key] obtain b r where
    "probe (m_hashMap s) (m_version s) (mask k) key (computeIndex s key) = Some (b, r)"
    "r < length (m_hashMap s)"
    "if b then he_version (m_hashMap s ! r) = m_version s \<and> he_key (m_hashMap s ! r) = key
     else he_version (m_hashMap s ! r) \<noteq> m_version s"
    by blast
  with False show ?thesis
    by (cases b) (simp_all add: findHashEntry_def mk)
qed

lemma queries_total:
  assumes inv: "set_inv cont n s" and n: "n < 2 ^ 31"
  shows "\<exists>r. getAccess ops s key q = Some r" and "\<exists>r. isDirty ops s key q = Some r"
proof -
  from inv have ci: "chain_inv cont s" by (simp add: set_inv_def)
  then have lb: "links_back (nexts (m_list s))" by (simp add: chain_inv_def)
  from findHashEntry_total [OF inv n, of key] obtain r where
    f: "findHashEntry s key = Some r"
    and p: "\<forall>i. r = Some i \<longrightarrow> i < length (m_hashMap s) \<and> he_version (m_hashMap s ! i) = m_version s"
    by blast
  show "\<exists>r. getAccess ops s key q = Some r"
  proof (cases r)
    case None
    with f show ?thesis by (simp add: getAccess_def)
  next
    case (Some i)
    with p have h: "i < length (m_hashMap s)" "he_version (m_hashMap s ! i) = m_version s" by auto
    from getAccess_loop_total [OF lb refl owner_next [OF ci h]] f Some
    show ?thesis by (simp add: getAccess_def)
  qed
  show "\<exists>r. isDirty ops s key q = Some r"
  proof (cases r)
    case None
    with f show ?thesis by (simp add: isDirty_def exI [of _ False])
  next
    case (Some i)
    with p have h: "i < length (m_hashMap s)" "he_version (m_hashMap s ! i) = m_version s" by auto
    from isDirty_loop_total [OF lb refl owner_next [OF ci h]] f Some
    show ?thesis by (auto simp: isDirty_def)
  qed
qed

lemma clear_inv:
  assumes inv: "set_inv cont n s" and n: "Suc n < 2 ^ 31"
  shows "set_inv cont (Suc n) (clear s)"
proof -
  let ?v = "m_version s"
  from inv have vl: "versions_le ?v (m_hashMap s)" and vz: "?v \<noteq> 0" and vb: "unat ?v \<le> n + 1"
    and tb: "(m_indexMask s = 0 \<and> m_hashMap s = []) \<or> (\<exists>k. table_ok s k \<and> 2 ^ k \<le> 64 + 4 * n)"
    by (simp_all add: set_inv_def)
  have vs: "unat ?v < 2 ^ 64 - 1"
    using vb n by simp
  have v1: "?v + 1 \<noteq> 0" by (rule succ_nonzero [OF vs])
  have lt: "?v < ?v + 1" by (rule word_less_succ [OF v1])
  have le: "live (clear s) = {#}"
    using live_entries_above [OF vl lt] by (simp add: live_def clear_def)
  have ci: "chain_inv cont (clear s)"
    by (rule chain_inv_empty [OF le]) (simp add: clear_def)
  have vl': "versions_le (m_version (clear s)) (m_hashMap (clear s))"
    using versions_le_mono [OF vl, of "?v + 1"] lt by (simp add: clear_def)
  have tb': "(m_indexMask (clear s) = 0 \<and> m_hashMap (clear s) = [])
      \<or> (\<exists>k. table_ok (clear s) k \<and> 2 ^ k \<le> 64 + 4 * Suc n)"
    using tb by (auto simp: clear_def table_ok_def)
  show ?thesis
    unfolding set_inv_def
    using ci vl' tb' v1 unat_succ [OF vs] vb le
    by (simp add: clear_def)
qed

lemma call_step:
  assumes ok: "cont_ok ops cont" and inv: "set_inv cont n s" and n: "Suc n < 2 ^ 31"
  shows "\<exists>s'. call ops c s = Some s' \<and> set_inv cont (Suc n) s'"
proof (cases c)
  case (Insert k d)
  with insert_step [OF ok inv n] show ?thesis by simp
next
  case (GetAccess k d)
  have "n < 2 ^ 31" using n by simp
  from queries_total(1) [OF inv this, of ops k d] set_inv_mono [OF inv] GetAccess
  show ?thesis by auto
next
  case (IsDirty k d)
  have "n < 2 ^ 31" using n by simp
  from queries_total(2) [OF inv this, of ops k d] set_inv_mono [OF inv] IsDirty
  show ?thesis by auto
next
  case Clear
  with clear_inv [OF inv n] show ?thesis by simp
qed

lemma run_inv:
  assumes ok: "cont_ok ops cont"
  shows "set_inv cont n s \<Longrightarrow> n + length cs < 2 ^ 31 \<Longrightarrow>
    \<exists>s'. run ops cs s = Some s' \<and> set_inv cont (n + length cs) s'"
proof (induction cs arbitrary: n s)
  case Nil
  then show ?case by simp
next
  case (Cons c cs)
  from Cons.prems have "Suc n < 2 ^ 31" by simp
  from call_step [OF ok Cons.prems(1) this, of c] obtain s1 where
    c: "call ops c s = Some s1" and i: "set_inv cont (Suc n) s1"
    by blast
  from Cons.IH [OF i] Cons.prems(2) obtain s' where
    "run ops cs s1 = Some s'" "set_inv cont (Suc n + length cs) s'"
    by auto
  with c show ?case by simp
qed

lemma reachable_chain_inv:
  assumes ok: "cont_ok ops cont" and n: "length cs < 2 ^ 31"
  shows "\<exists>s. run ops cs init_set = Some s
    \<and> (\<forall>e \<in> set (m_hashMap s). he_version e = m_version s \<longrightarrow>
          (\<forall>j. chained (nexts (m_list s)) (he_next e) j \<longrightarrow> cont (he_data e) (le_data (m_list s ! j))))"
proof -
  from run_inv [OF ok init_inv, of cs] n obtain s where
    r: "run ops cs init_set = Some s" and i: "set_inv cont (length cs) s"
    by auto
  from i have ci: "chain_inv cont s" by (simp add: set_inv_def)
  have "cont (he_data e) (le_data (m_list s ! j))"
    if e: "e \<in> set (m_hashMap s)" "he_version e = m_version s"
      and c: "chained (nexts (m_list s)) (he_next e) j" for e j
  proof -
    from e obtain h where h: "h < length (m_hashMap s)" "m_hashMap s ! h = e"
      by (auto simp: in_set_conv_nth)
    with e(2) have "he_version (m_hashMap s ! h) = m_version s" by simp
    from owner_cont [OF ci h(1) this] c h(2) show ?thesis by simp
  qed
  with r show ?thesis by blast
qed

section \<open>The subresource set: the superset invariant\<close>

lemma zero_length_eval:
  "map_option (\<lambda>s. (length (m_hashMap s), he_version (m_hashMap s ! 62) = m_version s,
        he_next (m_hashMap s ! 62), nexts (m_list s),
        he_data (m_hashMap s ! 62), le_data (m_list s ! 1)))
     (run buffer_ops zero_length_calls init_set)
   = Some (64, True, 1, [NoEntry, 0],
       \<lparr>buf_loAddr = 0, buf_hiAddr = 20, buf_access = {Read}\<rparr>,
       \<lparr>buf_loAddr = 20, buf_hiAddr = 20, buf_access = {Read}\<rparr>)"
  by code_simp

lemma two_buffer_eval:
  "map_option (\<lambda>s. (length (m_hashMap s), he_version (m_hashMap s ! 62) = m_version s,
        he_next (m_hashMap s ! 62), nexts (m_list s), le_data (m_list s ! 1)))
     (run buffer_ops two_buffer_calls init_set)
   = Some (64, True, 1, [NoEntry, 0],
       \<lparr>buf_loAddr = 128, buf_hiAddr = 192, buf_access = {Write}\<rparr>)"
  by code_simp

lemma two_image_eval:
  "map_option (\<lambda>s. (length (m_hashMap s), he_version (m_hashMap s ! 62) = m_version s,
        he_next (m_hashMap s ! 62), nexts (m_list s), le_data (m_list s ! 1)))
     (run image_ops two_image_calls init_set)
   = Some (64, True, 1, [NoEntry, 0],
       \<lparr>img_aspects = 1, img_minLayer = 4, img_maxLayer = 6, img_minLevel = 2,
        img_maxLevel = 3, img_access = {Write}\<rparr>)"
  by code_simp

lemma chained_example: "chained [NoEntry, 0] 1 0 \<and> chained [NoEntry, 0] 1 1"
proof -
  have n: "(0 :: 32 word) < NoEntry" "(1 :: 32 word) < NoEntry"
    by (simp_all add: less_NoEntry)
  have 0: "chained [NoEntry, 0] 0 (unat (0 :: 32 word))"
    by (rule chained.head) (use n in simp_all)
  have 1: "chained [NoEntry, 0] 1 (unat (1 :: 32 word))"
    by (rule chained.head) (use n in simp_all)
  have "chained [NoEntry, 0] 1 0"
    by (rule chained.step) (use n 0 in simp_all)
  with 1 show ?thesis by simp
qed

lemma buffer_chain_overlapped:
  "chains_contained buffer_contains s \<Longrightarrow> head_overlaps_chain buffer_ops s"
  unfolding chains_contained_def head_overlaps_chain_def
  using buffer_contains_overlaps(2,3) by (simp add: buffer_ops_def)

lemma image_chain_overlapped:
  "chains_contained image_contains s \<Longrightarrow> head_overlaps_chain image_ops s"
  unfolding chains_contained_def head_overlaps_chain_def
  using image_contains_overlaps(2,3) by (simp add: image_ops_def)

lemma reachable_contained:
  assumes ok: "cont_ok ops cont" and n: "length cs < 2 ^ 31"
  shows "\<exists>s. run ops cs init_set = Some s \<and> chains_contained cont s"
  using reachable_chain_inv [OF ok n] unfolding chains_contained_def .

text \<open>
  Claim C4, as the code has it. Take any sequence of fewer than \<open>2^31\<close> calls of
  \<^verbatim>\<open>insert\<close>, \<^verbatim>\<open>getAccess\<close>, \<^verbatim>\<open>isDirty\<close> and \<^verbatim>\<open>clear\<close> on a new set, for buffer
  slices and for image slices. Every call returns, and in the state reached the
  stored slice of every live hash entry

  \<^item> contains every slice on the entry's overflow chain: its bounds enclose the
    chained slice's bounds, its aspect mask includes the chained slice's aspects,
    and its access flags are a superset of the chained slice's flags;
  \<^item> overlaps, by the slice type's own \<^verbatim>\<open>overlaps\<close>, every slice on the chain that
    overlaps itself, and has every access flag of every slice on the chain.

  The second follows from the first, since a slice that contains another overlaps
  whatever the other overlaps. The bound on the number of calls is a hypothesis of
  the theorem: under it the 32-bit list indices and the 64-bit version do not wrap.
\<close>

theorem chained_slices_contained:
  assumes "length cs < 2 ^ 31" and "length ds < 2 ^ 31"
  shows "(\<exists>s. run buffer_ops cs init_set = Some s
            \<and> chains_contained buffer_contains s \<and> head_overlaps_chain buffer_ops s)
    \<and> (\<exists>s. run image_ops ds init_set = Some s
            \<and> chains_contained image_contains s \<and> head_overlaps_chain image_ops s)
    \<and> (\<forall>a x y. buffer_contains a x \<longrightarrow>
          (buffer_overlaps x y \<longrightarrow> buffer_overlaps a y)
          \<and> (buffer_overlaps x x \<longrightarrow> buffer_overlaps a x)
          \<and> buffer_getAccess x \<subseteq> buffer_getAccess a)
    \<and> (\<forall>a x y. image_contains a x \<longrightarrow>
          (image_overlaps x y \<longrightarrow> image_overlaps a y)
          \<and> (image_overlaps x x \<longrightarrow> image_overlaps a x)
          \<and> image_getAccess x \<subseteq> image_getAccess a)"
proof -
  from reachable_contained [OF buffer_cont_ok assms(1)] obtain sb where
    "run buffer_ops cs init_set = Some sb" "chains_contained buffer_contains sb"
    by blast
  then have b: "\<exists>s. run buffer_ops cs init_set = Some s
      \<and> chains_contained buffer_contains s \<and> head_overlaps_chain buffer_ops s"
    using buffer_chain_overlapped by blast
  from reachable_contained [OF image_cont_ok assms(2)] obtain si where
    "run image_ops ds init_set = Some si" "chains_contained image_contains si"
    by blast
  then have i: "\<exists>s. run image_ops ds init_set = Some s
      \<and> chains_contained image_contains s \<and> head_overlaps_chain image_ops s"
    using image_chain_overlapped by blast
  from b i buffer_contains_overlaps image_contains_overlaps show ?thesis
    by blast
qed

theorem chained_slices_contained_witness:
  "length two_buffer_calls < 2 ^ 31 \<and> length two_image_calls < 2 ^ 31
   \<and> run buffer_ops two_buffer_calls init_set = Some two_buffer_state
   \<and> he_version (m_hashMap two_buffer_state ! 62) = m_version two_buffer_state
   \<and> chained (nexts (m_list two_buffer_state)) (he_next (m_hashMap two_buffer_state ! 62)) 1
   \<and> le_data (m_list two_buffer_state ! 1)
       = \<lparr>buf_loAddr = 128, buf_hiAddr = 192, buf_access = {Write}\<rparr>
   \<and> buffer_contains (he_data (m_hashMap two_buffer_state ! 62)) (le_data (m_list two_buffer_state ! 1))
   \<and> buffer_overlaps (he_data (m_hashMap two_buffer_state ! 62)) (le_data (m_list two_buffer_state ! 1))
   \<and> Write \<in> buffer_getAccess (he_data (m_hashMap two_buffer_state ! 62))
   \<and> run image_ops two_image_calls init_set = Some two_image_state
   \<and> he_version (m_hashMap two_image_state ! 62) = m_version two_image_state
   \<and> chained (nexts (m_list two_image_state)) (he_next (m_hashMap two_image_state ! 62)) 1
   \<and> le_data (m_list two_image_state ! 1)
       = \<lparr>img_aspects = 1, img_minLayer = 4, img_maxLayer = 6, img_minLevel = 2,
          img_maxLevel = 3, img_access = {Write}\<rparr>
   \<and> image_contains (he_data (m_hashMap two_image_state ! 62)) (le_data (m_list two_image_state ! 1))
   \<and> image_overlaps (he_data (m_hashMap two_image_state ! 62)) (le_data (m_list two_image_state ! 1))
   \<and> Write \<in> image_getAccess (he_data (m_hashMap two_image_state ! 62))"
proof -
  have lb: "length two_buffer_calls < 2 ^ 31" by (simp add: two_buffer_calls_def)
  have li: "length two_image_calls < 2 ^ 31" by (simp add: two_image_calls_def)
  from chained_slices_contained [OF lb li] obtain sb si where
    rb: "run buffer_ops two_buffer_calls init_set = Some sb"
    and cb: "chains_contained buffer_contains sb"
    and hb: "head_overlaps_chain buffer_ops sb"
    and ri: "run image_ops two_image_calls init_set = Some si"
    and ci: "chains_contained image_contains si"
    and hi: "head_overlaps_chain image_ops si"
    by blast
  have sb: "sb = two_buffer_state" by (simp add: two_buffer_state_def rb)
  have si: "si = two_image_state" by (simp add: two_image_state_def ri)
  from two_buffer_eval rb have eb: "length (m_hashMap sb) = 64"
    "he_version (m_hashMap sb ! 62) = m_version sb" "he_next (m_hashMap sb ! 62) = 1"
    "nexts (m_list sb) = [NoEntry, 0]"
    "le_data (m_list sb ! 1) = \<lparr>buf_loAddr = 128, buf_hiAddr = 192, buf_access = {Write}\<rparr>"
    by simp_all
  from two_image_eval ri have ei: "length (m_hashMap si) = 64"
    "he_version (m_hashMap si ! 62) = m_version si" "he_next (m_hashMap si ! 62) = 1"
    "nexts (m_list si) = [NoEntry, 0]"
    "le_data (m_list si ! 1) = \<lparr>img_aspects = 1, img_minLayer = 4, img_maxLayer = 6,
        img_minLevel = 2, img_maxLevel = 3, img_access = {Write}\<rparr>"
    by simp_all
  have mb: "m_hashMap sb ! 62 \<in> set (m_hashMap sb)" by (rule nth_mem) (simp add: eb)
  have mi: "m_hashMap si ! 62 \<in> set (m_hashMap si)" by (rule nth_mem) (simp add: ei)
  have chb: "chained (nexts (m_list sb)) (he_next (m_hashMap sb ! 62)) 1"
    using chained_example by (simp add: eb)
  have chi: "chained (nexts (m_list si)) (he_next (m_hashMap si ! 62)) 1"
    using chained_example by (simp add: ei)
  from cb mb eb(2) chb
  have 1: "buffer_contains (he_data (m_hashMap sb ! 62)) (le_data (m_list sb ! 1))"
    unfolding chains_contained_def by blast
  from ci mi ei(2) chi
  have 2: "image_contains (he_data (m_hashMap si ! 62)) (le_data (m_list si ! 1))"
    unfolding chains_contained_def by blast
  from hb mb eb(2) chb
  have "(buffer_overlaps (le_data (m_list sb ! 1)) (le_data (m_list sb ! 1))
           \<longrightarrow> buffer_overlaps (he_data (m_hashMap sb ! 62)) (le_data (m_list sb ! 1)))
      \<and> buffer_getAccess (le_data (m_list sb ! 1)) \<subseteq> buffer_getAccess (he_data (m_hashMap sb ! 62))"
    unfolding head_overlaps_chain_def by (simp add: buffer_ops_def)
  moreover have "buffer_overlaps (le_data (m_list sb ! 1)) (le_data (m_list sb ! 1))"
    "Write \<in> buffer_getAccess (le_data (m_list sb ! 1))"
    unfolding eb(5) by (simp_all add: buffer_overlaps_def buffer_getAccess_def)
  ultimately have 3: "buffer_overlaps (he_data (m_hashMap sb ! 62)) (le_data (m_list sb ! 1))"
    and 4: "Write \<in> buffer_getAccess (he_data (m_hashMap sb ! 62))"
    by blast+
  from hi mi ei(2) chi
  have "(image_overlaps (le_data (m_list si ! 1)) (le_data (m_list si ! 1))
           \<longrightarrow> image_overlaps (he_data (m_hashMap si ! 62)) (le_data (m_list si ! 1)))
      \<and> image_getAccess (le_data (m_list si ! 1)) \<subseteq> image_getAccess (he_data (m_hashMap si ! 62))"
    unfolding head_overlaps_chain_def by (simp add: image_ops_def)
  moreover have "image_overlaps (le_data (m_list si ! 1)) (le_data (m_list si ! 1))"
    "Write \<in> image_getAccess (le_data (m_list si ! 1))"
    unfolding ei(5) by (simp_all add: image_overlaps_def image_getAccess_def)
  ultimately have 5: "image_overlaps (he_data (m_hashMap si ! 62)) (le_data (m_list si ! 1))"
    and 6: "Write \<in> image_getAccess (he_data (m_hashMap si ! 62))"
    by blast+
  from lb li rb ri eb(2,5) ei(2,5) chb chi 1 2 3 4 5 6 show ?thesis
    unfolding sb si by simp
qed

text \<open>
  The claim as the spec words it asks the stored slice to overlap every chained
  slice, with no exception. After ten bytes at offset 0 and a slice of length
  zero at offset 20 for the same handle, the stored slice is \<open>[0, 20)\<close>, the slice
  \<open>[20, 20)\<close> is on the chain, and \<^verbatim>\<open>overlaps\<close> of the stored slice with it is false.
\<close>

theorem hash_slice_overlaps_chain_counterexample:
  "run buffer_ops zero_length_calls init_set = Some zero_length_state
   \<and> he_version (m_hashMap zero_length_state ! 62) = m_version zero_length_state
   \<and> chained (nexts (m_list zero_length_state)) (he_next (m_hashMap zero_length_state ! 62)) 1
   \<and> \<not> buffer_overlaps (he_data (m_hashMap zero_length_state ! 62))
          (le_data (m_list zero_length_state ! 1))"
proof -
  from zero_length_eval obtain s where r: "run buffer_ops zero_length_calls init_set = Some s"
    and e: "he_version (m_hashMap s ! 62) = m_version s" "he_next (m_hashMap s ! 62) = 1"
    "nexts (m_list s) = [NoEntry, 0]"
    "he_data (m_hashMap s ! 62) = \<lparr>buf_loAddr = 0, buf_hiAddr = 20, buf_access = {Read}\<rparr>"
    "le_data (m_list s ! 1) = \<lparr>buf_loAddr = 20, buf_hiAddr = 20, buf_access = {Read}\<rparr>"
    by auto
  have s: "zero_length_state = s" by (simp add: zero_length_state_def r)
  show ?thesis
    unfolding s using r e chained_example by (simp add: buffer_overlaps_def)
qed

section \<open>The range tracker: walks of a tree\<close>

lemma node_key_node_range [simp]: "node_key (node_range k e) = k"
  by (simp add: node_key_def node_range_def)

lemma node_range_sel [simp]:
  "resource (node_range k e) = fst k"
  "rangeStart (node_range k e) = snd k"
  "rangeEnd (node_range k e) = e"
  by (simp_all add: node_range_def)

lemma node_range_node_key [simp]: "node_range (node_key n) (rangeEnd n) = n"
  by (simp add: node_key_def node_range_def)


lemma nodes_Empty [simp]: "nodes RBT_Impl.Empty = {}"
  by (simp add: nodes_def)

lemma nodes_Branch [simp]:
  "nodes (Branch c l k e r) = nodes l \<union> insert (node_range k e) (nodes r)"
  by (auto simp add: nodes_def)





lemma range_contains_refl [simp]: "range_contains a a"
  by (simp add: range_contains_def)













section \<open>The range tracker: insertion and removal of a node\<close>















section \<open>The range tracker: the insertion loop returns\<close>



section \<open>The range tracker: one bucket\<close>





lemma bucket_ranges_Nil [simp]: "bucket_ranges [] i = {}"
  by (simp add: bucket_ranges_def)





section \<open>The range tracker: every state after insertions\<close>



lemma bucketValid_trees [simp]: "bucketValid (s\<lparr>m_trees := ts\<rparr>) j = bucketValid s j"
  by (simp add: bucketValid_def)






section \<open>The range tracker: the conflict rule\<close>







end
